theory Spec2Isabelle
  imports Complex_Main "HOL-Library.Word"
begin

unbundle bit_operations_syntax

section \<open>Configuration constants\<close>

text \<open>
  \<^verbatim>\<open>stepper.c\<close> includes \<^verbatim>\<open>config.h\<close>, \<^verbatim>\<open>stepper.h\<close> and \<^verbatim>\<open>nuts_bolts.h\<close> and is compiled
  with \<^verbatim>\<open>-DF_CPU=...\<close>. The constants it takes from there are the fields of one record,
  which every function that reads such a constant takes as its first argument.
  \<^verbatim>\<open>TICKS_PER_MICROSECOND\<close> is \<^verbatim>\<open>(F_CPU/1000000)\<close>; it is only ever multiplied with a
  \<^verbatim>\<open>uint32_t\<close>, so it is kept as the 32-bit value of that quotient. Bit numbers and axis
  numbers are \<^verbatim>\<open>int\<close> literals of the C code.
\<close>

record config =
  TICKS_PER_MICROSECOND :: "32 word"
  STEPPING_INVERT_MASK :: "8 word"
  STEP_PULSE_MICROSECONDS :: "32 word"
  X_STEP_BIT :: nat
  Y_STEP_BIT :: nat
  Z_STEP_BIT :: nat
  X_DIRECTION_BIT :: nat
  Y_DIRECTION_BIT :: nat
  Z_DIRECTION_BIT :: nat
  X_LIMIT_BIT :: nat
  Y_LIMIT_BIT :: nat
  Z_LIMIT_BIT :: nat
  X_AXIS :: int
  Y_AXIS :: int
  Z_AXIS :: int

text \<open>
  Modelled from the spec: \<^verbatim>\<open>STEP_MASK\<close> and \<^verbatim>\<open>DIRECTION_MASK\<close> are macros of the missing
  \<^verbatim>\<open>config.h\<close>. The spec's data model gives a step instruction ``one bit per axis for
  pulse this axis's step line, one bit per axis for this axis's direction line state'';
  the step bit of an axis is \<^verbatim>\<open>1<<X_STEP_BIT\<close> in \<^verbatim>\<open>st_bit_for_stepper\<close>. A mask is the
  union of its three axis bits, as a \<^verbatim>\<open>uint8_t\<close> (a bit number above 7 gives no bit).
\<close>

definition STEP_MASK :: "config \<Rightarrow> 8 word" where
  "STEP_MASK cfg =
     push_bit (X_STEP_BIT cfg) 1 OR push_bit (Y_STEP_BIT cfg) 1 OR push_bit (Z_STEP_BIT cfg) 1"

definition DIRECTION_MASK :: "config \<Rightarrow> 8 word" where
  "DIRECTION_MASK cfg =
     push_bit (X_DIRECTION_BIT cfg) 1 OR push_bit (Y_DIRECTION_BIT cfg) 1
       OR push_bit (Z_DIRECTION_BIT cfg) 1"

definition STEP_BUFFER_SIZE :: nat where
  "STEP_BUFFER_SIZE = 100"

definition PACE_CHANGE_MARKER :: "8 word" where
  "PACE_CHANGE_MARKER = 0xff"

text \<open>Bit number of the clock-select field in \<^verbatim>\<open>TCCR1B\<close> (avr-libc: \<^verbatim>\<open>CS10\<close> is 0).\<close>

definition CS10 :: nat where
  "CS10 = 0"

section \<open>The globals and the registers the module writes\<close>

datatype mode = STEPPER_MODE_STOPPED | STEPPER_MODE_RUNNING

text \<open>
  \<^verbatim>\<open>step_buffer_head\<close> and \<^verbatim>\<open>step_buffer_tail\<close> are C \<^verbatim>\<open>int\<close>s that start at 0 and are only
  ever assigned \<^verbatim>\<open>(i + 1) % STEP_BUFFER_SIZE\<close> or each other, so they are natural numbers
  here and \<^verbatim>\<open>%\<close> is \<open>mod\<close>. The registers are the bytes (\<^verbatim>\<open>OCR1A\<close>: the 16-bit pair) the
  code assigns.
\<close>

record stepper =
  step_buffer :: "8 word list"
  step_buffer_head :: nat
  step_buffer_tail :: nat
  current_pace :: "32 word"
  next_pace :: "32 word"
  stepper_mode :: mode
  PORTD :: "8 word"
  STEPPING_PORT :: "8 word"
  TCCR1B :: "8 word"
  OCR1A :: "16 word"
  TCNT2 :: "8 word"

section \<open>config\_pace\_timer\<close>

text \<open>
  The if-chain of \<^verbatim>\<open>config_pace_timer\<close> on its local \<^verbatim>\<open>ticks\<close>: the pair
  (\<^verbatim>\<open>ceiling\<close>, \<^verbatim>\<open>prescaler\<close>), both \<^verbatim>\<open>uint16_t\<close>. The assignment of a \<^verbatim>\<open>uint32_t\<close> to
  \<^verbatim>\<open>ceiling\<close> keeps the low 16 bits (\<open>ucast\<close>).
\<close>

definition pace_ceiling_prescaler :: "32 word \<Rightarrow> 16 word \<times> 16 word" where
  "pace_ceiling_prescaler ticks =
     (if ticks \<le> 0xffff then (ucast ticks, 0)
      else if ticks \<le> 0x7ffff then (ucast (drop_bit 3 ticks), 1)
      else if ticks \<le> 0x3fffff then (ucast (drop_bit 6 ticks), 2)
      else if ticks \<le> 0xffffff then (ucast (drop_bit 8 ticks), 3)
      else if ticks \<le> 0x3ffffff then (ucast (drop_bit 10 ticks), 4)
      else (0xffff, 4))"

text \<open>
  \<^verbatim>\<open>TCCR1B = (TCCR1B & ~(0x07<<CS10)) | ((prescaler+1)<<CS10)\<close> is evaluated in \<^verbatim>\<open>int\<close> and
  stored to a byte; the low 8 bits are the same computed on bytes.
\<close>

definition config_pace_timer :: "config \<Rightarrow> 32 word \<Rightarrow> stepper \<Rightarrow> stepper" where
  "config_pace_timer cfg microseconds g =
     (let ticks = microseconds * TICKS_PER_MICROSECOND cfg;
          (ceiling, prescaler) = pace_ceiling_prescaler ticks
      in g\<lparr>TCCR1B := (TCCR1B g AND NOT (push_bit CS10 0x07))
                        OR push_bit CS10 (ucast (prescaler + 1)),
           OCR1A := ceiling,
           current_pace := microseconds\<rparr>)"

text \<open>
  What the timer reads back: the clock-select field of \<^verbatim>\<open>TCCR1B\<close>, and the clock divisor
  it selects. \<^verbatim>\<open>config_pace_timer\<close> stores \<^verbatim>\<open>prescaler+1\<close> there and its comments name
  the divisors (``prescaler: 8'' at \<^verbatim>\<open>prescaler = 1\<close>, up to ``prescaler: 1024'' at 4), which
  is Timer 1's table: 1, 8, 64, 256, 1024 for the values 1 to 5. Any other value does not
  clock the timer from the prescaler (divisor 0 here).
\<close>

definition clock_select :: "stepper \<Rightarrow> 8 word" where
  "clock_select g = drop_bit CS10 (TCCR1B g) AND 0x07"

definition timer1_divisor :: "8 word \<Rightarrow> nat" where
  "timer1_divisor cs =
     (if cs = 1 then 1 else if cs = 2 then 8 else if cs = 3 then 64
      else if cs = 4 then 256 else if cs = 5 then 1024 else 0)"

section \<open>The interrupt handlers\<close>

text \<open>
  \<^verbatim>\<open>TCNT2 = -(((STEP_PULSE_MICROSECONDS-4)*TICKS_PER_MICROSECOND)/8)\<close>. The types of the
  two macros are not in \<^verbatim>\<open>stepper.c\<close>; with \<^verbatim>\<open>F_CPU\<close> an \<^verbatim>\<open>unsigned long\<close> (as avr-libc
  expects it) the expression is computed in 32-bit unsigned arithmetic, and the store to
  the 8-bit counter keeps the low byte.
\<close>

definition pulse_reset_count :: "config \<Rightarrow> 8 word" where
  "pulse_reset_count cfg =
     ucast (- (((STEP_PULSE_MICROSECONDS cfg - 4) * TICKS_PER_MICROSECOND cfg) div 8))"

definition SIG_OUTPUT_COMPARE1A :: "config \<Rightarrow> stepper \<Rightarrow> stepper" where
  "SIG_OUTPUT_COMPARE1A cfg g =
     (if step_buffer_head g \<noteq> step_buffer_tail g then
        let g1 = g\<lparr>PORTD := PORTD g AND NOT (push_bit 3 1)\<rparr>;
            popped = step_buffer g1 ! step_buffer_tail g1;
            g2 = (if popped = PACE_CHANGE_MARKER then
                    (config_pace_timer cfg (next_pace g1) g1)\<lparr>next_pace := 0\<rparr>
                  else
                    let popped' = popped XOR STEPPING_INVERT_MASK cfg;
                        g3 = g1\<lparr>STEPPING_PORT :=
                                  (STEPPING_PORT g1 AND NOT (DIRECTION_MASK cfg))
                                    OR (popped' AND DIRECTION_MASK cfg)\<rparr>;
                        g4 = g3\<lparr>STEPPING_PORT :=
                                  (STEPPING_PORT g3 AND NOT (STEP_MASK cfg)) OR popped'\<rparr>
                    in g4\<lparr>TCNT2 := pulse_reset_count cfg\<rparr>)
        in g2\<lparr>step_buffer_tail := (step_buffer_tail g2 + 1) mod STEP_BUFFER_SIZE\<rparr>
      else g\<lparr>PORTD := PORTD g OR push_bit 3 1\<rparr>)"

definition SIG_OVERFLOW2 :: "config \<Rightarrow> stepper \<Rightarrow> stepper" where
  "SIG_OVERFLOW2 cfg g =
     g\<lparr>STEPPING_PORT := (STEPPING_PORT g AND NOT (STEP_MASK cfg))
                           OR (STEPPING_INVERT_MASK cfg AND STEP_MASK cfg)\<rparr>"

section \<open>Axis helpers\<close>

definition st_bit_for_stepper :: "config \<Rightarrow> int \<Rightarrow> 8 word" where
  "st_bit_for_stepper cfg axis =
     (if axis = X_AXIS cfg then push_bit (X_STEP_BIT cfg) 1
      else if axis = Y_AXIS cfg then push_bit (Y_STEP_BIT cfg) 1
      else if axis = Z_AXIS cfg then push_bit (Z_STEP_BIT cfg) 1
      else 0)"

text \<open>
  \<^verbatim>\<open>check_limit_switch\<close> reads the volatile \<^verbatim>\<open>LIMIT_PORT\<close> twice; the two values read are
  the arguments \<open>port1\<close> and \<open>port2\<close>. The result is the \<^verbatim>\<open>int\<close> of \<^verbatim>\<open>||\<close>: 0 or 1.
\<close>

definition limit_mask :: "config \<Rightarrow> int \<Rightarrow> 8 word" where
  "limit_mask cfg axis =
     (if axis = X_AXIS cfg then push_bit (X_LIMIT_BIT cfg) 1
      else if axis = Y_AXIS cfg then push_bit (Y_LIMIT_BIT cfg) 1
      else if axis = Z_AXIS cfg then push_bit (Z_LIMIT_BIT cfg) 1
      else 0)"

definition check_limit_switch :: "config \<Rightarrow> 8 word \<Rightarrow> 8 word \<Rightarrow> int \<Rightarrow> int" where
  "check_limit_switch cfg port1 port2 axis =
     (let mask = limit_mask cfg axis
      in if port1 AND mask \<noteq> 0 \<or> port2 AND mask \<noteq> 0 then 1 else 0)"

text \<open>
  \<^verbatim>\<open>st_millimeters_to_steps\<close> computes \<^verbatim>\<open>round(millimeters*X_STEPS_PER_MM)\<close> in \<^verbatim>\<open>double\<close>
  and converts the result to its return type \<^verbatim>\<open>int32_t\<close>. A double is modelled by the
  real number it holds (a finite double; NaN and the infinities are left out).

  The number of binary digits of a natural number, and with it the binade of a nonzero
  real: the \<open>e\<close> with \<open>2 powi e \<le> \<bar>x\<bar> < 2 powi (e + 1)\<close>.
\<close>

fun bit_length :: "nat \<Rightarrow> nat" where
  "bit_length n = (if n = 0 then 0 else Suc (bit_length (n div 2)))"

declare bit_length.simps [simp del]

definition binade :: "real \<Rightarrow> int" where
  "binade x =
     (if 1 \<le> \<bar>x\<bar> then int (bit_length (nat \<lfloor>\<bar>x\<bar>\<rfloor>)) - 1
      else - int (bit_length (nat (\<lceil>1 / \<bar>x\<bar>\<rceil> - 1))))"

text \<open>
  The product of two doubles is the exact product rounded to the nearest double, halfway
  cases to the even significand (the IEEE 754 default rounding). \<open>double_round p\<close> rounds
  to \<open>p\<close> significant bits; \<open>p\<close> is \<^verbatim>\<open>DBL_MANT_DIG\<close>, 24 where \<^verbatim>\<open>double\<close> is a 32-bit float
  (avr-gcc's default) and 53 where it is a 64-bit one. The exponent is not bounded here.
  For this function that changes no result: a product beyond the largest double is
  beyond \<^verbatim>\<open>int32_t\<close> too, and a product below the normal range rounds to the integer 0
  either way.
\<close>

definition round_half_even :: "real \<Rightarrow> int" where
  "round_half_even q =
     (let f = \<lfloor>q\<rfloor>; r = q - of_int f
      in if r < 1 / 2 then f else if 1 / 2 < r then f + 1
         else if even f then f else f + 1)"

definition double_round :: "nat \<Rightarrow> real \<Rightarrow> real" where
  "double_round p x =
     (if x = 0 then 0
      else let u = 2 powi (binade x - int p + 1)
           in of_int (round_half_even (x / u)) * u)"

definition double_mul :: "nat \<Rightarrow> real \<Rightarrow> real \<Rightarrow> real" where
  "double_mul p a b = double_round p (a * b)"

text \<open>
  libm's \<^verbatim>\<open>round\<close>: the nearest integer, halfway cases away from zero. It is exact on
  doubles, so its result is the integer itself.
\<close>

definition c_round :: "real \<Rightarrow> int" where
  "c_round x = (if 0 \<le> x then \<lfloor>x + 1 / 2\<rfloor> else - \<lfloor>- x + 1 / 2\<rfloor>)"

text \<open>
  The \<^verbatim>\<open>return\<close> converts the integer-valued double to \<^verbatim>\<open>int32_t\<close>. C defines the
  conversion only when the value is in the range of the type; outside it the behaviour
  is undefined, which is the fault value here.
\<close>

datatype fault = Undefined_conversion

definition double_to_int32 :: "int \<Rightarrow> fault + 32 word" where
  "double_to_int32 v =
     (if - (2 ^ 31) \<le> v \<and> v \<le> 2 ^ 31 - 1 then Inr (word_of_int v)
      else Inl Undefined_conversion)"

text \<open>
  The constants of the unit conversion: the precision of \<^verbatim>\<open>double\<close> on the target and the
  three steps-per-millimeter macros of \<^verbatim>\<open>config.h\<close>, as the doubles they evaluate to.
\<close>

record units =
  DBL_MANT_DIG :: nat
  X_STEPS_PER_MM :: real
  Y_STEPS_PER_MM :: real
  Z_STEPS_PER_MM :: real

definition st_millimeters_to_steps ::
  "config \<Rightarrow> units \<Rightarrow> real \<Rightarrow> int \<Rightarrow> fault + 32 word" where
  "st_millimeters_to_steps cfg u millimeters axis =
     (if axis = X_AXIS cfg then
        double_to_int32 (c_round (double_mul (DBL_MANT_DIG u) millimeters (X_STEPS_PER_MM u)))
      else if axis = Y_AXIS cfg then
        double_to_int32 (c_round (double_mul (DBL_MANT_DIG u) millimeters (Y_STEPS_PER_MM u)))
      else if axis = Z_AXIS cfg then
        double_to_int32 (c_round (double_mul (DBL_MANT_DIG u) millimeters (Z_STEPS_PER_MM u)))
      else Inr 0)"

section \<open>The foreground: st\_buffer\_step and st\_buffer\_pace, one access at a time\<close>

text \<open>
  The two producer functions run in the foreground and can be interrupted between any two
  accesses to the shared variables, and both contain a wait loop that only an interrupt
  handler ends. So they are modelled by their control points, with the locals that are
  live there, and one function that runs the foreground from one control point to the
  next. A step holds at most one access a handler can interfere with: a read of a
  variable a handler writes (\<^verbatim>\<open>step_buffer_tail\<close>, \<^verbatim>\<open>next_pace\<close>, \<^verbatim>\<open>current_pace\<close>) or a
  write of a variable a handler reads (\<^verbatim>\<open>step_buffer\<close>, \<^verbatim>\<open>step_buffer_head\<close>,
  \<^verbatim>\<open>next_pace\<close>). That access is taken as indivisible.

  \<^verbatim>\<open>st_buffer_step\<close> is called by the main program and by \<^verbatim>\<open>st_buffer_pace\<close>;
  \<open>caller\<close> is its return context (with the argument of the pending
  \<^verbatim>\<open>st_buffer_pace\<close> call). In both contexts the function returns to the main program,
  since the call is the last statement of \<^verbatim>\<open>st_buffer_pace\<close>.
\<close>

datatype caller = From_main | From_st_buffer_pace "32 word"

datatype pc =
    Idle
      \<comment> \<open>in the main program, between two calls\<close>
  | Step_wait "8 word" nat caller
      \<comment> \<open>\<^verbatim>\<open>st_buffer_step\<close>, at the test of \<^verbatim>\<open>while(step_buffer_tail == next_buffer_head)\<close>;
          the locals \<^verbatim>\<open>motor_port_bits\<close> and \<^verbatim>\<open>next_buffer_head\<close>\<close>
  | Step_push "8 word" nat caller
      \<comment> \<open>before \<^verbatim>\<open>step_buffer[step_buffer_head] = motor_port_bits\<close>\<close>
  | Step_advance "8 word" nat caller
      \<comment> \<open>before \<^verbatim>\<open>step_buffer_head = next_buffer_head\<close>\<close>
  | Pace_wait "32 word"
      \<comment> \<open>\<^verbatim>\<open>st_buffer_pace\<close>, at the test of \<^verbatim>\<open>while (next_pace != 0)\<close>; the argument
          \<^verbatim>\<open>microseconds\<close>\<close>
  | Pace_store "32 word"
      \<comment> \<open>before \<^verbatim>\<open>next_pace = microseconds\<close>\<close>

text \<open>
  The entry of \<^verbatim>\<open>st_buffer_step\<close>: the mode test and the computation of
  \<^verbatim>\<open>next_buffer_head\<close>. Both read variables that no interrupt handler writes
  (\<^verbatim>\<open>stepper_mode\<close>, \<^verbatim>\<open>step_buffer_head\<close>), so they are one step.
\<close>

definition st_buffer_step_entry :: "8 word \<Rightarrow> caller \<Rightarrow> stepper \<Rightarrow> pc" where
  "st_buffer_step_entry motor_port_bits c g =
     (if stepper_mode g \<noteq> STEPPER_MODE_RUNNING then Idle
      else Step_wait motor_port_bits ((step_buffer_head g + 1) mod STEP_BUFFER_SIZE) c)"

definition st_buffer_pace_entry :: "32 word \<Rightarrow> stepper \<Rightarrow> pc" where
  "st_buffer_pace_entry microseconds g =
     (if current_pace g = microseconds \<or> stepper_mode g \<noteq> STEPPER_MODE_RUNNING then Idle
      else Pace_wait microseconds)"

datatype call = Call_st_buffer_step "8 word" | Call_st_buffer_pace "32 word"

fun fg_call :: "call \<Rightarrow> stepper \<Rightarrow> pc" where
  "fg_call (Call_st_buffer_step motor_port_bits) g =
     st_buffer_step_entry motor_port_bits From_main g"
| "fg_call (Call_st_buffer_pace microseconds) g = st_buffer_pace_entry microseconds g"

text \<open>
  One foreground step from a control point inside a call. A wait loop whose condition
  holds sleeps and tests again: the step changes nothing.
\<close>

fun fg_step :: "pc \<Rightarrow> stepper \<Rightarrow> stepper \<times> pc" where
  "fg_step Idle g = (g, Idle)"
| "fg_step (Step_wait b n c) g =
     (if step_buffer_tail g = n then (g, Step_wait b n c) else (g, Step_push b n c))"
| "fg_step (Step_push b n c) g =
     (g\<lparr>step_buffer := (step_buffer g)[step_buffer_head g := b]\<rparr>, Step_advance b n c)"
| "fg_step (Step_advance b n c) g = (g\<lparr>step_buffer_head := n\<rparr>, Idle)"
| "fg_step (Pace_wait us) g =
     (if next_pace g \<noteq> 0 then (g, Pace_wait us) else (g, Pace_store us))"
| "fg_step (Pace_store us) g =
     (let g' = g\<lparr>next_pace := us\<rparr>
      in (g', st_buffer_step_entry PACE_CHANGE_MARKER (From_st_buffer_pace us) g'))"

section \<open>The system: foreground and interrupt handlers interleaved\<close>

text \<open>
  An event is a call issued by the main program (possible between two calls only), one
  foreground step, a run of the cadence handler, or a run of the pulse-reset handler.
  Handlers run to completion and can come between any two foreground steps.

  Two logs are kept beside the program's state; the program does not read them.
  \<open>enq_log\<close> gets an entry when \<^verbatim>\<open>st_buffer_step\<close> has advanced the head: the step byte, or
  for a marker the pace its \<^verbatim>\<open>st_buffer_pace\<close> call asked for. \<open>deq_log\<close> gets an entry when
  the cadence handler pops a byte: the byte, and \<^verbatim>\<open>current_pace\<close> at that moment, the pace
  whose timer period ran out.
\<close>

datatype request = Req_step "8 word" | Req_pace "32 word"

fun request_byte :: "request \<Rightarrow> 8 word" where
  "request_byte (Req_step b) = b"
| "request_byte (Req_pace us) = PACE_CHANGE_MARKER"

fun enqueued :: "8 word \<Rightarrow> caller \<Rightarrow> request" where
  "enqueued b From_main = Req_step b"
| "enqueued b (From_st_buffer_pace us) = Req_pace us"

datatype event = Call call | Fg | Tick | Pulse_reset

record sys =
  globals :: stepper
  pc :: pc
  enq_log :: "request list"
  deq_log :: "(8 word \<times> 32 word) list"

fun sys_step :: "config \<Rightarrow> event \<Rightarrow> sys \<Rightarrow> sys" where
  "sys_step cfg (Call c) s =
     (if pc s = Idle then s\<lparr>pc := fg_call c (globals s)\<rparr> else s)"
| "sys_step cfg Fg s =
     (let (g', pc') = fg_step (pc s) (globals s)
      in s\<lparr>globals := g', pc := pc',
            enq_log := (case pc s of Step_advance b n c \<Rightarrow> enq_log s @ [enqueued b c]
                        | _ \<Rightarrow> enq_log s)\<rparr>)"
| "sys_step cfg Tick s =
     (let g = globals s
      in s\<lparr>globals := SIG_OUTPUT_COMPARE1A cfg g,
            deq_log := (if step_buffer_head g \<noteq> step_buffer_tail g
                        then deq_log s @ [(step_buffer g ! step_buffer_tail g, current_pace g)]
                        else deq_log s)\<rparr>)"
| "sys_step cfg Pulse_reset s = s\<lparr>globals := SIG_OVERFLOW2 cfg (globals s)\<rparr>"

definition run :: "config \<Rightarrow> event list \<Rightarrow> sys \<Rightarrow> sys" where
  "run cfg evs s = foldl (\<lambda>s ev. sys_step cfg ev s) s evs"

text \<open>
  The system once \<^verbatim>\<open>st_start\<close> has returned and before the first call: Running, nothing
  buffered, no pace request pending.
\<close>

definition started :: "sys \<Rightarrow> bool" where
  "started s \<longleftrightarrow>
     pc s = Idle \<and> enq_log s = [] \<and> deq_log s = [] \<and>
     stepper_mode (globals s) = STEPPER_MODE_RUNNING \<and>
     length (step_buffer (globals s)) = STEP_BUFFER_SIZE \<and>
     step_buffer_head (globals s) < STEP_BUFFER_SIZE \<and>
     step_buffer_tail (globals s) = step_buffer_head (globals s) \<and>
     next_pace (globals s) = 0"

text \<open>
  What the instruction stream asks for: a step executes under the pace in force, a marker
  is popped under the pace in force and puts its own pace in force for what follows.
\<close>

fun replay :: "32 word \<Rightarrow> request list \<Rightarrow> (8 word \<times> 32 word) list" where
  "replay p [] = []"
| "replay p (Req_step b # rs) = (b, p) # replay p rs"
| "replay p (Req_pace us # rs) = (PACE_CHANGE_MARKER, p) # replay us rs"

fun pace_after :: "32 word \<Rightarrow> request list \<Rightarrow> 32 word" where
  "pace_after p [] = p"
| "pace_after p (Req_step b # rs) = pace_after p rs"
| "pace_after p (Req_pace us # rs) = pace_after us rs"

text \<open>The requests that are enqueued and not yet popped, and the markers among them.\<close>

definition pending :: "sys \<Rightarrow> request list" where
  "pending s = drop (length (deq_log s)) (enq_log s)"

fun pending_paces :: "request list \<Rightarrow> 32 word list" where
  "pending_paces [] = []"
| "pending_paces (Req_step b # rs) = pending_paces rs"
| "pending_paces (Req_pace us # rs) = us # pending_paces rs"

text \<open>A machine for the examples: a 16 MHz clock, the globals as C initialises them,
  \<^verbatim>\<open>current_pace\<close> as \<^verbatim>\<open>st_init\<close> leaves it, and the mode \<^verbatim>\<open>st_start\<close> sets.\<close>

definition cfg16 :: config where
  "cfg16 = \<lparr>TICKS_PER_MICROSECOND = 16, STEPPING_INVERT_MASK = 0,
     STEP_PULSE_MICROSECONDS = 5,
     X_STEP_BIT = 0, Y_STEP_BIT = 1, Z_STEP_BIT = 2,
     X_DIRECTION_BIT = 3, Y_DIRECTION_BIT = 4, Z_DIRECTION_BIT = 5,
     X_LIMIT_BIT = 0, Y_LIMIT_BIT = 1, Z_LIMIT_BIT = 2,
     X_AXIS = 0, Y_AXIS = 1, Z_AXIS = 2\<rparr>"

definition units24 :: units where
  "units24 = \<lparr>DBL_MANT_DIG = 24,
     X_STEPS_PER_MM = 5, Y_STEPS_PER_MM = 10, Z_STEPS_PER_MM = 200\<rparr>"

definition zeroed :: stepper where
  "zeroed = \<lparr>step_buffer = replicate STEP_BUFFER_SIZE 0,
     step_buffer_head = 0, step_buffer_tail = 0, current_pace = 0, next_pace = 0,
     stepper_mode = STEPPER_MODE_STOPPED, PORTD = 0, STEPPING_PORT = 0, TCCR1B = 0,
     OCR1A = 0, TCNT2 = 0\<rparr>"

definition sys0 :: sys where
  "sys0 = \<lparr>globals = (config_pace_timer cfg16 20000 zeroed)
                        \<lparr>stepper_mode := STEPPER_MODE_RUNNING\<rparr>,
     pc = Idle, enq_log = [], deq_log = []\<rparr>"

section \<open>Invariants of the running system\<close>

text \<open>
  The number of instructions enqueued and not yet popped, and the \<open>n\<close> bytes of the ring
  from the tail on.
\<close>

definition resident :: "sys \<Rightarrow> nat" where
  "resident s = length (enq_log s) - length (deq_log s)"

definition buffered :: "stepper \<Rightarrow> nat \<Rightarrow> 8 word list" where
  "buffered g n =
     map (\<lambda>k. step_buffer g ! ((step_buffer_tail g + k) mod STEP_BUFFER_SIZE)) [0..<n]"

text \<open>
  Inside \<^verbatim>\<open>st_buffer_step\<close>: \<^verbatim>\<open>next_buffer_head\<close> is one past the head; past the wait
  loop there is a free slot besides the one always kept empty; before the head is
  advanced the byte is in its slot. The byte passed by \<^verbatim>\<open>st_buffer_pace\<close> is the marker.
\<close>

fun pc_buffer_ok :: "pc \<Rightarrow> sys \<Rightarrow> bool" where
  "pc_buffer_ok Idle s = True"
| "pc_buffer_ok (Step_wait b n c) s =
     (n = (step_buffer_head (globals s) + 1) mod STEP_BUFFER_SIZE \<and>
      request_byte (enqueued b c) = b)"
| "pc_buffer_ok (Step_push b n c) s =
     (n = (step_buffer_head (globals s) + 1) mod STEP_BUFFER_SIZE \<and>
      request_byte (enqueued b c) = b \<and> resident s + 1 < STEP_BUFFER_SIZE)"
| "pc_buffer_ok (Step_advance b n c) s =
     (n = (step_buffer_head (globals s) + 1) mod STEP_BUFFER_SIZE \<and>
      request_byte (enqueued b c) = b \<and> resident s + 1 < STEP_BUFFER_SIZE \<and>
      step_buffer (globals s) ! step_buffer_head (globals s) = b)"
| "pc_buffer_ok (Pace_wait us) s = True"
| "pc_buffer_ok (Pace_store us) s = True"

definition buffer_inv :: "sys \<Rightarrow> bool" where
  "buffer_inv s \<longleftrightarrow>
     stepper_mode (globals s) = STEPPER_MODE_RUNNING \<and>
     length (step_buffer (globals s)) = STEP_BUFFER_SIZE \<and>
     step_buffer_tail (globals s) < STEP_BUFFER_SIZE \<and>
     length (deq_log s) \<le> length (enq_log s) \<and>
     resident s < STEP_BUFFER_SIZE \<and>
     step_buffer_head (globals s)
       = (step_buffer_tail (globals s) + resident s) mod STEP_BUFFER_SIZE \<and>
     buffered (globals s) (resident s) = map request_byte (pending s) \<and>
     map fst (deq_log s) = map request_byte (take (length (deq_log s)) (enq_log s)) \<and>
     pc_buffer_ok (pc s) s"

text \<open>
  The arguments the pace protocol is built for: a step byte that is not the marker, a pace
  that is not 0 (the value of \<^verbatim>\<open>next_pace\<close> that means ``no request'').
\<close>

fun legal_request :: "request \<Rightarrow> bool" where
  "legal_request (Req_step b) = (b \<noteq> PACE_CHANGE_MARKER)"
| "legal_request (Req_pace us) = (us \<noteq> 0)"

fun legal_event :: "event \<Rightarrow> bool" where
  "legal_event (Call (Call_st_buffer_step b)) = (b \<noteq> PACE_CHANGE_MARKER)"
| "legal_event (Call (Call_st_buffer_pace us)) = (us \<noteq> 0)"
| "legal_event Fg = True"
| "legal_event Tick = True"
| "legal_event Pulse_reset = True"

text \<open>
  The one-element pace buffer: either no marker is resident and \<^verbatim>\<open>next_pace\<close> is 0, or
  exactly one is and \<^verbatim>\<open>next_pace\<close> holds its pace.
\<close>

definition slot_ok :: "sys \<Rightarrow> bool" where
  "slot_ok s \<longleftrightarrow>
     (if next_pace (globals s) = 0 then pending_paces (pending s) = []
      else pending_paces (pending s) = [next_pace (globals s)])"

fun step_ctx_ok :: "8 word \<Rightarrow> caller \<Rightarrow> sys \<Rightarrow> bool" where
  "step_ctx_ok b From_main s = (b \<noteq> PACE_CHANGE_MARKER \<and> slot_ok s)"
| "step_ctx_ok b (From_st_buffer_pace us) s =
     (us \<noteq> 0 \<and> pending_paces (pending s) = [] \<and> next_pace (globals s) = us)"

fun pc_pace_ok :: "pc \<Rightarrow> sys \<Rightarrow> bool" where
  "pc_pace_ok Idle s = slot_ok s"
| "pc_pace_ok (Step_wait b n c) s = step_ctx_ok b c s"
| "pc_pace_ok (Step_push b n c) s = step_ctx_ok b c s"
| "pc_pace_ok (Step_advance b n c) s = step_ctx_ok b c s"
| "pc_pace_ok (Pace_wait us) s = (us \<noteq> 0 \<and> slot_ok s)"
| "pc_pace_ok (Pace_store us) s =
     (us \<noteq> 0 \<and> pending_paces (pending s) = [] \<and> next_pace (globals s) = 0)"

text \<open>
  \<open>p0\<close> is the pace at the start. What the handler has popped, with the pace in force at
  each pop, is what the enqueued stream asks for; the pace in force now is the one the
  popped part of the stream leaves.
\<close>

definition pace_inv :: "32 word \<Rightarrow> sys \<Rightarrow> bool" where
  "pace_inv p0 s \<longleftrightarrow>
     deq_log s = replay p0 (take (length (deq_log s)) (enq_log s)) \<and>
     current_pace (globals s) = pace_after p0 (take (length (deq_log s)) (enq_log s)) \<and>
     list_all legal_request (enq_log s) \<and>
     pc_pace_ok (pc s) s"

text \<open>
  Two states that agree on where the foreground is and on the queue: buffer, head, tail
  and both logs.
\<close>

definition same_queue :: "sys \<Rightarrow> sys \<Rightarrow> bool" where
  "same_queue s s' \<longleftrightarrow>
     pc s' = pc s \<and> step_buffer (globals s') = step_buffer (globals s) \<and>
     step_buffer_head (globals s') = step_buffer_head (globals s) \<and>
     step_buffer_tail (globals s') = step_buffer_tail (globals s) \<and>
     enq_log s' = enq_log s \<and> deq_log s' = deq_log s"


text \<open>
  The compare register and the clock-select field are the ones \<^verbatim>\<open>config_pace_timer\<close>
  computes for \<^verbatim>\<open>current_pace\<close>.
\<close>

definition timer_matches :: "config \<Rightarrow> stepper \<Rightarrow> bool" where
  "timer_matches cfg g \<longleftrightarrow>
     OCR1A g = OCR1A (config_pace_timer cfg (current_pace g) g) \<and>
     clock_select g = clock_select (config_pace_timer cfg (current_pace g) g)"


text \<open>The example machine's globals with one step instruction buffered.\<close>

definition one_buffered :: stepper where
  "one_buffered = (globals sys0)
     \<lparr>step_buffer := (step_buffer (globals sys0))[0 := 0x3f], step_buffer_head := 1\<rparr>"

text \<open>Runs of the example machine.\<close>

definition fill_trace :: "event list" where
  "fill_trace = concat (replicate 99 [Call (Call_st_buffer_step 1), Fg, Fg, Fg])"

definition legal_trace :: "event list" where
  "legal_trace =
     [Call (Call_st_buffer_pace 5000), Fg, Fg, Fg, Fg, Fg,
      Call (Call_st_buffer_step 1), Fg, Fg, Fg,
      Call (Call_st_buffer_pace 3000), Fg, Tick, Fg, Fg, Fg, Fg, Fg, Tick, Tick]"

definition zero_pace_trace :: "event list" where
  "zero_pace_trace =
     [Call (Call_st_buffer_pace 0), Fg, Fg, Fg, Fg, Fg,
      Call (Call_st_buffer_step 1), Fg, Fg, Fg,
      Call (Call_st_buffer_pace 5000), Fg, Fg, Fg, Fg, Fg]"

definition marker_step_trace :: "event list" where
  "marker_step_trace =
     [Call (Call_st_buffer_step 0xff), Fg, Fg, Fg,
      Call (Call_st_buffer_step 1), Fg, Fg, Fg, Tick, Tick]"


section \<open>The timer parameters\<close>

lemma unat_ucast_32_16: "unat (ucast (w :: 32 word) :: 16 word) = unat w mod 65536"
  by (simp add: unsigned_ucast_eq unsigned_take_bit_eq take_bit_eq_mod)

lemma unat_drop_bit_div: "unat (drop_bit k (t :: 32 word)) = unat t div 2 ^ k"
  using unat_drop_bit_eq [of k t] by (simp only: drop_bit_eq_div [where ?'a = nat])

lemma OCR1A_config_pace_timer:
  "OCR1A (config_pace_timer cfg us g) =
     fst (pace_ceiling_prescaler (us * TICKS_PER_MICROSECOND cfg))"
  by (simp add: config_pace_timer_def Let_def split: prod.split)

lemma current_pace_config_pace_timer: "current_pace (config_pace_timer cfg us g) = us"
  by (simp add: config_pace_timer_def Let_def split: prod.split)

lemma clock_select_field: "((x :: 8 word) AND - 8 OR y) AND 7 = y AND 7"
  by (simp add: bit.conj_disj_distrib2 and.assoc)

lemma snd_pace_ceiling_prescaler:
  "snd (pace_ceiling_prescaler t) \<in> {0, 1, 2, 3, 4}"
  by (simp add: pace_ceiling_prescaler_def)

lemma clock_select_config_pace_timer:
  "clock_select (config_pace_timer cfg us g) =
     ucast (snd (pace_ceiling_prescaler (us * TICKS_PER_MICROSECOND cfg))) + 1"
  using snd_pace_ceiling_prescaler [of "us * TICKS_PER_MICROSECOND cfg"]
  by (auto simp: clock_select_def config_pace_timer_def Let_def CS10_def clock_select_field
      split: prod.split)

lemma pace_ceiling_prescaler_in_range:
  fixes ticks :: "32 word"
  assumes "ticks \<le> 65535 * 1024"
  shows "let c = fst (pace_ceiling_prescaler ticks);
             d = timer1_divisor (ucast (snd (pace_ceiling_prescaler ticks)) + 1) in
     d \<in> {1, 8, 64, 256, 1024} \<and> unat ticks div d \<le> 65535 \<and>
     (\<forall>q \<in> {1, 8, 64, 256, 1024}. q < d \<longrightarrow> 65535 < unat ticks div q) \<and>
     unat c = unat ticks div d \<and> unat c \<le> 65535 \<and>
     d * unat c \<le> unat ticks \<and> unat ticks < d * unat c + d"
  using assms
  apply (simp add: pace_ceiling_prescaler_def timer1_divisor_def Let_def word_le_nat_alt
      unat_ucast_32_16 unat_drop_bit_div)
  apply (intro conjI impI)
  apply simp_all
  done

text \<open>
  C2. For every interval whose tick count \<open>ticks\<close> (the product
  \<^verbatim>\<open>microseconds*TICKS_PER_MICROSECOND\<close> as the code computes it) is at most \<open>65535 * 1024\<close>,
  the divisor \<^verbatim>\<open>config_pace_timer\<close> selects is one of 1, 8, 64, 256, 1024 and the smallest
  of them with \<open>ticks div d \<le> 65535\<close>; the ceiling it stores is \<open>ticks div d\<close>, fits in
  16 bits, and \<open>d * ceiling\<close> is at most \<open>ticks\<close> and less than one prescaled tick below it.
\<close>

theorem config_pace_timer_smallest_prescaler:
  fixes microseconds :: "32 word"
  assumes "microseconds * TICKS_PER_MICROSECOND cfg \<le> 65535 * 1024"
  shows "let ticks = unat (microseconds * TICKS_PER_MICROSECOND cfg);
             g' = config_pace_timer cfg microseconds g;
             d = timer1_divisor (clock_select g');
             c = unat (OCR1A g')
         in d \<in> {1, 8, 64, 256, 1024} \<and> ticks div d \<le> 65535 \<and>
            (\<forall>q \<in> {1, 8, 64, 256, 1024}. q < d \<longrightarrow> 65535 < ticks div q) \<and>
            c = ticks div d \<and> c \<le> 65535 \<and> d * c \<le> ticks \<and> ticks < d * c + d"
  unfolding Let_def OCR1A_config_pace_timer clock_select_config_pace_timer
  by (rule pace_ceiling_prescaler_in_range [OF assms, unfolded Let_def])

theorem config_pace_timer_smallest_prescaler_witness:
  "(20000 :: 32 word) * TICKS_PER_MICROSECOND cfg16 \<le> 65535 * 1024 \<and>
   timer1_divisor (clock_select (config_pace_timer cfg16 20000 zeroed)) = 8 \<and>
   OCR1A (config_pace_timer cfg16 20000 zeroed) = 40000 \<and>
   (65535 :: nat) < 320000 div 1 \<and> (320000 :: nat) div 8 \<le> 65535"
  using config_pace_timer_smallest_prescaler [of 20000 cfg16 zeroed]
  by (simp add: cfg16_def Let_def OCR1A_config_pace_timer clock_select_config_pace_timer
      pace_ceiling_prescaler_def timer1_divisor_def)

lemma clamp_branch:
  fixes ticks :: "32 word"
  assumes "65535 < unat ticks div 1024"
  shows "pace_ceiling_prescaler ticks = (0xffff, 4)"
proof -
  have "67108863 < unat ticks"
    using assms by simp
  then have "\<not> ticks \<le> 0x3ffffff"
    by (simp add: word_le_nat_alt)
  moreover have "\<not> ticks \<le> 0xffffff" "\<not> ticks \<le> 0x3fffff" "\<not> ticks \<le> 0x7ffff" "\<not> ticks \<le> 0xffff"
    using \<open>67108863 < unat ticks\<close> by (simp_all add: word_le_nat_alt)
  ultimately show ?thesis
    by (simp add: pace_ceiling_prescaler_def)
qed

lemma timer1_period_max: "timer1_divisor cs * unat (c :: 16 word) \<le> 1024 * 65535"
proof -
  have "timer1_divisor cs \<le> 1024"
    by (simp add: timer1_divisor_def)
  moreover have "unat c \<le> 65535"
    using unsigned_less [of c, where ?'a = nat] by simp
  ultimately show ?thesis
    by (rule mult_le_mono)
qed

text \<open>
  C3, as amended. For every requested interval whose tick count (the 32-bit product, which
  wraps modulo \<open>2 ^ 32\<close>) is still above 65535 after division by 1024,
  \<^verbatim>\<open>config_pace_timer\<close> stores the ceiling 65535 with divisor 1024 and records the request
  in \<^verbatim>\<open>current_pace\<close>. No divisor and ceiling give a longer period, so this is the slowest
  cadence the timer has; its period is shorter than the requested tick count (and not
  longer when the compare match is counted as a tick of its own), so the cadence is not
  slower than the one requested. The function has no error result.
\<close>

theorem config_pace_timer_clamps_to_slowest:
  fixes microseconds :: "32 word"
  assumes "65535 < unat (microseconds * TICKS_PER_MICROSECOND cfg) div 1024"
  shows "let ticks = unat (microseconds * TICKS_PER_MICROSECOND cfg);
             g' = config_pace_timer cfg microseconds g;
             d = timer1_divisor (clock_select g');
             c = unat (OCR1A g')
         in ticks = (unat microseconds * unat (TICKS_PER_MICROSECOND cfg)) mod 2 ^ 32 \<and>
            OCR1A g' = 0xffff \<and> clock_select g' = 5 \<and> d = 1024 \<and>
            current_pace g' = microseconds \<and>
            (\<forall>cs c'. timer1_divisor cs * unat (c' :: 16 word) \<le> d * c) \<and>
            d * c < ticks \<and> d * (c + 1) \<le> ticks"
proof -
  have "65536 * 1024 \<le> unat (microseconds * TICKS_PER_MICROSECOND cfg)"
    using assms by simp
  then show ?thesis
    using timer1_period_max
    by (simp add: Let_def OCR1A_config_pace_timer clock_select_config_pace_timer
        current_pace_config_pace_timer clamp_branch [OF assms] timer1_divisor_def
        unat_word_ariths)
qed

theorem config_pace_timer_clamps_to_slowest_witness:
  "65535 < unat ((5000000 :: 32 word) * TICKS_PER_MICROSECOND cfg16) div 1024 \<and>
   OCR1A (config_pace_timer cfg16 5000000 zeroed) = 0xffff \<and>
   clock_select (config_pace_timer cfg16 5000000 zeroed) = 5 \<and>
   current_pace (config_pace_timer cfg16 5000000 zeroed) = 5000000"
  using config_pace_timer_clamps_to_slowest [of 5000000 cfg16 zeroed]
  by (simp add: cfg16_def Let_def)

text \<open>
  C3 as stated says the clamped cadence is never faster than the requested one, that is,
  that the configured period is at least the requested tick count. At 5 s on a 16 MHz
  clock the request is 80000000 ticks and the configured period is \<open>1024 * 65535\<close> ticks
  (\<open>1024 * 65536\<close> when the compare match is counted as a tick of its own): about 4.19 s.
\<close>

theorem config_pace_timer_clamp_is_faster:
  "65535 < unat ((5000000 :: 32 word) * TICKS_PER_MICROSECOND cfg16) div 1024 \<and>
   \<not> unat ((5000000 :: 32 word) * TICKS_PER_MICROSECOND cfg16)
       \<le> timer1_divisor (clock_select (config_pace_timer cfg16 5000000 zeroed))
           * unat (OCR1A (config_pace_timer cfg16 5000000 zeroed)) \<and>
   \<not> unat ((5000000 :: 32 word) * TICKS_PER_MICROSECOND cfg16)
       \<le> timer1_divisor (clock_select (config_pace_timer cfg16 5000000 zeroed))
           * (unat (OCR1A (config_pace_timer cfg16 5000000 zeroed)) + 1)"
  by (simp add: cfg16_def OCR1A_config_pace_timer clock_select_config_pace_timer
      pace_ceiling_prescaler_def timer1_divisor_def)

text \<open>
  C10. For every argument, \<^verbatim>\<open>config_pace_timer\<close> leaves \<^verbatim>\<open>current_pace\<close> equal to the
  argument, whatever branch computed the ceiling; a call of \<^verbatim>\<open>st_buffer_pace\<close> with the
  same value right after it returns at its first test and changes nothing.
\<close>

theorem config_pace_timer_records_request:
  "current_pace (config_pace_timer cfg microseconds g) = microseconds \<and>
   st_buffer_pace_entry microseconds (config_pace_timer cfg microseconds g) = Idle \<and>
   sys_step cfg (Call (Call_st_buffer_pace microseconds))
       (s\<lparr>globals := config_pace_timer cfg microseconds g, pc := Idle\<rparr>)
     = s\<lparr>globals := config_pace_timer cfg microseconds g, pc := Idle\<rparr>"
  by (simp add: current_pace_config_pace_timer st_buffer_pace_entry_def)

theorem config_pace_timer_records_request_witness:
  "current_pace (config_pace_timer cfg16 5000000 (globals sys0)) = 5000000 \<and>
   OCR1A (config_pace_timer cfg16 5000000 (globals sys0)) = 0xffff \<and>
   sys_step cfg16 (Call (Call_st_buffer_pace 5000000))
       (sys0\<lparr>globals := config_pace_timer cfg16 5000000 (globals sys0), pc := Idle\<rparr>)
     = sys0\<lparr>globals := config_pace_timer cfg16 5000000 (globals sys0), pc := Idle\<rparr>"
  using config_pace_timer_records_request [of cfg16 5000000 "globals sys0" sys0]
  by (simp add: OCR1A_config_pace_timer pace_ceiling_prescaler_def cfg16_def)

section \<open>The marker and the legal instructions\<close>

lemma bit_axis_bit: "bit (push_bit n 1 :: 8 word) i \<longleftrightarrow> i = n \<and> n < 8"
  by (auto simp: bit_exp_iff possible_bit_word)

lemma bit_stepping_mask:
  "bit (STEP_MASK cfg OR DIRECTION_MASK cfg) i \<longleftrightarrow>
     i < 8 \<and> i \<in> {X_STEP_BIT cfg, Y_STEP_BIT cfg, Z_STEP_BIT cfg,
                   X_DIRECTION_BIT cfg, Y_DIRECTION_BIT cfg, Z_DIRECTION_BIT cfg}"
  unfolding STEP_MASK_def DIRECTION_MASK_def bit_or_iff bit_axis_bit by auto

lemma free_bit: "\<exists>i<8. \<not> bit (STEP_MASK cfg OR DIRECTION_MASK cfg) i"
proof -
  let ?S = "{X_STEP_BIT cfg, Y_STEP_BIT cfg, Z_STEP_BIT cfg,
             X_DIRECTION_BIT cfg, Y_DIRECTION_BIT cfg, Z_DIRECTION_BIT cfg}"
  have "card ?S \<le> 6"
    by (simp add: card_insert_if)
  then have "card ?S < card {0..<8::nat}"
    by simp
  then have "\<not> {0..<8} \<subseteq> ?S"
    using card_mono [of ?S "{0..<8}"] by fastforce
  then obtain i where "i < 8" "i \<notin> ?S"
    by (meson atLeastLessThan_iff subsetI)
  then show ?thesis
    using bit_stepping_mask [of cfg i] by blast
qed

lemma legal_not_marker:
  assumes "b AND NOT (STEP_MASK cfg OR DIRECTION_MASK cfg) = 0"
  shows "b \<noteq> PACE_CHANGE_MARKER"
proof
  assume m: "b = PACE_CHANGE_MARKER"
  obtain i where i: "i < 8" "\<not> bit (STEP_MASK cfg OR DIRECTION_MASK cfg) i"
    using free_bit by blast
  have "bit (b AND NOT (STEP_MASK cfg OR DIRECTION_MASK cfg)) i"
  proof -
    have "(255 :: 8 word) = - 1"
      by simp
    then have "bit (255 :: 8 word) i"
      using i(1) by (simp only: bit_minus_1_iff possible_bit_word) simp
    then show ?thesis
      using i m by (simp add: PACE_CHANGE_MARKER_def bit_and_iff bit_not_iff bit_or_iff)
  qed
  with assms show False by simp
qed


text \<open>
  C6. A byte whose set bits all lie within \<^verbatim>\<open>STEP_MASK | DIRECTION_MASK\<close> is not
  \<^verbatim>\<open>PACE_CHANGE_MARKER\<close>: the six axis bits cannot cover the eight bits of \<^verbatim>\<open>0xff\<close>. When
  the cadence handler pops such a byte it takes the step branch: pace, pending pace and
  timer parameters stay as they are, the pulse-reset counter is loaded, and the step lines
  carry the instruction's step bits (through the invert mask).
\<close>

theorem legal_instruction_is_not_marker:
  assumes "b AND NOT (STEP_MASK cfg OR DIRECTION_MASK cfg) = 0"
  shows "b \<noteq> PACE_CHANGE_MARKER \<and>
     (step_buffer_head g \<noteq> step_buffer_tail g \<and> step_buffer g ! step_buffer_tail g = b \<longrightarrow>
        (let g' = SIG_OUTPUT_COMPARE1A cfg g
         in current_pace g' = current_pace g \<and> next_pace g' = next_pace g \<and>
            OCR1A g' = OCR1A g \<and> TCCR1B g' = TCCR1B g \<and>
            TCNT2 g' = pulse_reset_count cfg \<and>
            STEPPING_PORT g' AND STEP_MASK cfg
              = (b XOR STEPPING_INVERT_MASK cfg) AND STEP_MASK cfg))"
  using legal_not_marker [OF assms]
  by (auto simp: SIG_OUTPUT_COMPARE1A_def Let_def bit_eq_iff bit_and_iff bit_or_iff
      bit_not_iff bit_xor_iff)

theorem legal_instruction_is_not_marker_witness:
  "(0x3f :: 8 word) AND NOT (STEP_MASK cfg16 OR DIRECTION_MASK cfg16) = 0 \<and>
   step_buffer_head one_buffered \<noteq> step_buffer_tail one_buffered \<and>
   step_buffer one_buffered ! step_buffer_tail one_buffered = 0x3f \<and>
   (0x3f :: 8 word) \<noteq> PACE_CHANGE_MARKER \<and>
   current_pace (SIG_OUTPUT_COMPARE1A cfg16 one_buffered) = current_pace one_buffered \<and>
   TCNT2 (SIG_OUTPUT_COMPARE1A cfg16 one_buffered) = pulse_reset_count cfg16 \<and>
   STEPPING_PORT (SIG_OUTPUT_COMPARE1A cfg16 one_buffered) = 0x3f"
proof -
  have legal: "(0x3f :: 8 word) AND NOT (STEP_MASK cfg16 OR DIRECTION_MASK cfg16) = 0"
    by (simp add: cfg16_def STEP_MASK_def DIRECTION_MASK_def)
  have buffered:
    "step_buffer_head one_buffered \<noteq> step_buffer_tail one_buffered \<and>
     step_buffer one_buffered ! step_buffer_tail one_buffered = 0x3f"
    by code_simp
  have port: "STEPPING_PORT (SIG_OUTPUT_COMPARE1A cfg16 one_buffered) = 0x3f"
    by code_simp
  show ?thesis
    using legal_instruction_is_not_marker [OF legal, of one_buffered,
        unfolded Let_def] legal buffered port
    by blast
qed

section \<open>The pulse-reset handler\<close>

text \<open>
  C7. The pulse-reset handler sets the \<^verbatim>\<open>STEP_MASK\<close> bits of the stepping port to the
  invert mask's bits (their inactive level) and leaves every bit outside \<^verbatim>\<open>STEP_MASK\<close> as
  it was, so the direction bits too when no direction line is a step line; it changes
  nothing but the stepping port.
\<close>

theorem SIG_OVERFLOW2_resets_step_bits_only:
  "let g' = SIG_OVERFLOW2 cfg g
   in STEPPING_PORT g' AND STEP_MASK cfg = STEPPING_INVERT_MASK cfg AND STEP_MASK cfg \<and>
      STEPPING_PORT g' AND NOT (STEP_MASK cfg) = STEPPING_PORT g AND NOT (STEP_MASK cfg) \<and>
      (DIRECTION_MASK cfg AND STEP_MASK cfg = 0 \<longrightarrow>
         STEPPING_PORT g' AND DIRECTION_MASK cfg = STEPPING_PORT g AND DIRECTION_MASK cfg) \<and>
      g' = g\<lparr>STEPPING_PORT := STEPPING_PORT g'\<rparr>"
proof -
  let ?p = "(STEPPING_PORT g AND NOT (STEP_MASK cfg))
              OR (STEPPING_INVERT_MASK cfg AND STEP_MASK cfg)"
  have 1: "?p AND STEP_MASK cfg = STEPPING_INVERT_MASK cfg AND STEP_MASK cfg"
    by (auto simp: bit_eq_iff bit_and_iff bit_or_iff bit_not_iff)
  have 2: "?p AND NOT (STEP_MASK cfg) = STEPPING_PORT g AND NOT (STEP_MASK cfg)"
    by (auto simp: bit_eq_iff bit_and_iff bit_or_iff bit_not_iff)
  have 3: "?p AND DIRECTION_MASK cfg = STEPPING_PORT g AND DIRECTION_MASK cfg"
    if "DIRECTION_MASK cfg AND STEP_MASK cfg = 0"
  proof -
    have "DIRECTION_MASK cfg = DIRECTION_MASK cfg AND NOT (STEP_MASK cfg)"
      using that by (auto simp: bit_eq_iff bit_and_iff bit_not_iff)
    then have "?p AND DIRECTION_MASK cfg
        = (?p AND NOT (STEP_MASK cfg)) AND DIRECTION_MASK cfg"
      by (metis and.assoc and.commute)
    also have "\<dots> = (STEPPING_PORT g AND NOT (STEP_MASK cfg)) AND DIRECTION_MASK cfg"
      by (simp only: 2)
    also have "\<dots> = STEPPING_PORT g AND DIRECTION_MASK cfg"
      using \<open>DIRECTION_MASK cfg = DIRECTION_MASK cfg AND NOT (STEP_MASK cfg)\<close>
      by (metis and.assoc and.commute)
    finally show ?thesis .
  qed
  show ?thesis
    using 1 2 3 by (simp add: SIG_OVERFLOW2_def Let_def)
qed

theorem SIG_OVERFLOW2_resets_step_bits_only_witness:
  "DIRECTION_MASK cfg16 AND STEP_MASK cfg16 = 0 \<and>
   STEPPING_PORT (SIG_OVERFLOW2 cfg16 (zeroed\<lparr>STEPPING_PORT := 0xff\<rparr>)) = 0xf8"
  using SIG_OVERFLOW2_resets_step_bits_only [of cfg16 "zeroed\<lparr>STEPPING_PORT := 0xff\<rparr>"]
  by (simp add: cfg16_def STEP_MASK_def DIRECTION_MASK_def SIG_OVERFLOW2_def)

section \<open>Calls while Stopped\<close>

lemma stopped_call:
  assumes "stepper_mode g \<noteq> STEPPER_MODE_RUNNING"
  shows "fg_call c g = Idle"
  using assms by (cases c) (simp_all add: st_buffer_step_entry_def st_buffer_pace_entry_def)

lemma stopped_run:
  assumes "stepper_mode (globals s) \<noteq> STEPPER_MODE_RUNNING" and "pc s = Idle"
    and "\<forall>e \<in> set evs. e = Fg \<or> (\<exists>c. e = Call c)"
  shows "foldl (\<lambda>s ev. sys_step cfg ev s) s evs = s"
  using assms(3)
proof (induction evs)
  case Nil
  then show ?case by simp
next
  case (Cons e evs)
  then have "sys_step cfg e s = s"
    using assms(1,2) by (auto simp: stopped_call)
  with Cons show ?case by simp
qed

text \<open>
  C8. While the mode is not Running, a call of \<^verbatim>\<open>st_buffer_step\<close> or \<^verbatim>\<open>st_buffer_pace\<close>
  returns at once, control is back in the main program, and nothing has changed: buffer,
  head, tail, \<^verbatim>\<open>next_pace\<close>, \<^verbatim>\<open>current_pace\<close>, and nothing is enqueued. So any sequence of
  such calls leaves the system as it was.
\<close>

theorem stopped_calls_are_noops:
  assumes "stepper_mode (globals s) \<noteq> STEPPER_MODE_RUNNING" and "pc s = Idle"
  shows "fg_call c (globals s) = Idle \<and> sys_step cfg (Call c) s = s \<and>
     (\<forall>evs. (\<forall>e \<in> set evs. e = Fg \<or> (\<exists>c. e = Call c)) \<longrightarrow> run cfg evs s = s)"
  using assms by (simp add: stopped_call stopped_run run_def)

theorem stopped_calls_are_noops_witness:
  "stepper_mode (globals (sys0\<lparr>globals := zeroed\<rparr>)) \<noteq> STEPPER_MODE_RUNNING \<and>
   pc (sys0\<lparr>globals := zeroed\<rparr>) = Idle \<and>
   sys_step cfg16 (Call (Call_st_buffer_step 1)) (sys0\<lparr>globals := zeroed\<rparr>)
     = sys0\<lparr>globals := zeroed\<rparr> \<and>
   run cfg16 [Call (Call_st_buffer_pace 5000), Fg, Call (Call_st_buffer_step 1), Fg]
       (sys0\<lparr>globals := zeroed\<rparr>)
     = sys0\<lparr>globals := zeroed\<rparr>"
proof -
  have m: "stepper_mode (globals (sys0\<lparr>globals := zeroed\<rparr>)) \<noteq> STEPPER_MODE_RUNNING"
    by (simp add: zeroed_def)
  have i: "pc (sys0\<lparr>globals := zeroed\<rparr>) = Idle"
    by (simp add: sys0_def)
  show ?thesis
    using m i stopped_calls_are_noops [OF m i, of "Call_st_buffer_step 1" cfg16]
    by auto
qed

section \<open>The axis helpers\<close>

lemma c_round_nearest: "\<bar>of_int (c_round x) - x\<bar> \<le> 1 / 2"
  by (auto simp: c_round_def abs_if) linarith+

lemma round_half_even_nearest: "\<bar>of_int (round_half_even q) - q\<bar> \<le> 1 / 2"
  by (auto simp: round_half_even_def Let_def abs_if) linarith+

lemma bit_length_bounds:
  "0 < n \<Longrightarrow> 2 ^ (bit_length n - 1) \<le> n \<and> n < 2 ^ bit_length n"
proof (induction n rule: bit_length.induct)
  case (1 n)
  show ?case
  proof (cases "n div 2 = 0")
    case True
    then have "n = 1"
      using 1(2) by auto
    then show ?thesis
      by (simp add: bit_length.simps)
  next
    case False
    then have ih: "2 ^ (bit_length (n div 2) - 1) \<le> n div 2 \<and> n div 2 < 2 ^ bit_length (n div 2)"
      using 1 by simp
    have pos: "0 < bit_length (n div 2)"
      using False by (simp add: bit_length.simps [of "n div 2"])
    have bl: "bit_length n = Suc (bit_length (n div 2))"
      using 1(2) by (simp add: bit_length.simps [of n])
    have "(2 :: nat) ^ (bit_length n - 1) = 2 * 2 ^ (bit_length (n div 2) - 1)"
      using pos unfolding bl by (cases "bit_length (n div 2)") simp_all
    moreover have "2 * (n div 2) \<le> n" "n < 2 * (n div 2) + 2"
      by simp_all
    ultimately show ?thesis
      using ih unfolding bl by (simp add: power_Suc) linarith
  qed
qed

lemma binade_bounds:
  assumes "x \<noteq> 0"
  shows "2 powi binade x \<le> \<bar>x\<bar> \<and> \<bar>x\<bar> < 2 powi (binade x + 1)"
proof (cases "1 \<le> \<bar>x\<bar>")
  case True
  define n where "n = nat \<lfloor>\<bar>x\<bar>\<rfloor>"
  have "1 \<le> \<lfloor>\<bar>x\<bar>\<rfloor>"
    using True by linarith
  then have "0 < n" and "real n = of_int \<lfloor>\<bar>x\<bar>\<rfloor>"
    unfolding n_def by simp_all
  then have n: "0 < n" "real n \<le> \<bar>x\<bar>" "\<bar>x\<bar> < real n + 1"
    by linarith+
  note b = bit_length_bounds [OF n(1)]
  have pos: "0 < bit_length n"
    using n(1) by (simp add: bit_length.simps [of n])
  have e: "binade x = int (bit_length n) - 1"
    using True by (simp add: binade_def n_def)
  have p1: "(2 :: real) powi binade x = 2 ^ (bit_length n - 1)"
    unfolding e using pos by (simp add: power_int_def nat_diff_distrib')
  have p2: "(2 :: real) powi (binade x + 1) = 2 ^ bit_length n"
    unfolding e by (simp add: power_int_def)
  have "real (2 ^ (bit_length n - 1)) \<le> real n"
    using b by (simp only: of_nat_le_iff)
  then have lo: "(2 :: real) ^ (bit_length n - 1) \<le> real n"
    by simp
  have "real n + 1 \<le> real (2 ^ bit_length n)"
    using b by (metis Suc_leI of_nat_Suc of_nat_le_iff add.commute)
  then have hi: "real n + 1 \<le> (2 :: real) ^ bit_length n"
    by simp
  show ?thesis
    unfolding p1 p2 using n lo hi by linarith
next
  case False
  then have lt: "\<bar>x\<bar> < 1" and pos: "0 < \<bar>x\<bar>"
    using assms by simp_all
  define k where "k = \<lceil>1 / \<bar>x\<bar>\<rceil>"
  define m where "m = nat (k - 1)"
  have inv: "1 < 1 / \<bar>x\<bar>"
    using lt pos by simp
  have k: "2 \<le> k" "of_int k - 1 < 1 / \<bar>x\<bar>" "1 / \<bar>x\<bar> \<le> of_int k"
    using inv unfolding k_def by linarith+
  have "0 < m" and "real m = of_int k - 1"
    using k(1) unfolding m_def by simp_all
  then have m: "0 < m" "real m < 1 / \<bar>x\<bar>" "1 / \<bar>x\<bar> \<le> real m + 1"
    using k by linarith+
  note b = bit_length_bounds [OF m(1)]
  have bl: "0 < bit_length m"
    using m(1) by (simp add: bit_length.simps [of m])
  have e: "binade x = - int (bit_length m)"
    using False by (simp add: binade_def m_def k_def)
  have p1: "(2 :: real) powi binade x = 1 / 2 ^ bit_length m"
    unfolding e by (simp add: power_int_minus field_simps)
  have p2: "(2 :: real) powi (binade x + 1) = 1 / 2 ^ (bit_length m - 1)"
  proof -
    have "binade x + 1 = - int (bit_length m - 1)"
      unfolding e using bl by simp
    then show ?thesis
      by (simp add: power_int_minus field_simps)
  qed
  have "real (2 ^ (bit_length m - 1)) \<le> real m"
    using b by (simp only: of_nat_le_iff)
  then have lo: "(2 :: real) ^ (bit_length m - 1) \<le> real m"
    by simp
  have "real m + 1 \<le> real (2 ^ bit_length m)"
    using b by (metis Suc_leI of_nat_Suc of_nat_le_iff add.commute)
  then have hi: "real m + 1 \<le> (2 :: real) ^ bit_length m"
    by simp
  have "1 / \<bar>x\<bar> \<le> 2 ^ bit_length m"
    using m(3) hi by linarith
  then have "1 \<le> 2 ^ bit_length m * \<bar>x\<bar>"
    using pos by (simp add: field_simps)
  then have 1: "1 / 2 ^ bit_length m \<le> \<bar>x\<bar>"
    by (simp add: field_simps)
  have "2 ^ (bit_length m - 1) < 1 / \<bar>x\<bar>"
    using m(2) lo by linarith
  then have "2 ^ (bit_length m - 1) * \<bar>x\<bar> < 1"
    using pos by (simp add: field_simps)
  then have 2: "\<bar>x\<bar> < 1 / 2 ^ (bit_length m - 1)"
    by (simp add: field_simps)
  show ?thesis
    unfolding p1 p2 using 1 2 by blast
qed

lemma double_round_error: "\<bar>double_round p x - x\<bar> \<le> \<bar>x\<bar> / 2 ^ p"
proof (cases "x = 0")
  case True
  then show ?thesis by (simp add: double_round_def)
next
  case False
  define u :: real where "u = 2 powi (binade x - int p + 1)"
  have u: "0 < u"
    unfolding u_def by simp
  have r: "double_round p x = of_int (round_half_even (x / u)) * u"
    using False by (simp add: double_round_def Let_def u_def)
  have "\<bar>double_round p x - x\<bar> = \<bar>of_int (round_half_even (x / u)) - x / u\<bar> * u"
  proof -
    have "double_round p x - x = (of_int (round_half_even (x / u)) - x / u) * u"
      unfolding r using u by (simp add: field_simps)
    then show ?thesis
      using u by (simp add: abs_mult)
  qed
  also have "\<dots> \<le> 1 / 2 * u"
    using round_half_even_nearest [of "x / u"] u by (simp add: mult_right_mono)
  also have "1 / 2 * u = 2 powi binade x / 2 ^ p"
  proof -
    have "u = 2 powi binade x / 2 powi int p * 2"
      unfolding u_def by (simp add: power_int_add power_int_diff)
    then show ?thesis
      by simp
  qed
  also have "\<dots> \<le> \<bar>x\<bar> / 2 ^ p"
    using binade_bounds [OF False] by (simp add: divide_right_mono)
  finally show ?thesis .
qed

lemma double_to_int32_in_range:
  assumes "- (2 ^ 31) \<le> v" and "v \<le> 2 ^ 31 - 1"
  shows "double_to_int32 v = Inr (word_of_int v)"
    and "sint (word_of_int v :: 32 word) = v"
proof -
  show "double_to_int32 v = Inr (word_of_int v)"
    using assms by (simp add: double_to_int32_def)
  have "v < 2 ^ 31"
    using assms(2) by simp
  with assms(1) show "sint (word_of_int v :: 32 word) = v"
    by (simp add: sint_sbintrunc' signed_take_bit_int_eq_self)
qed

text \<open>
  C9, as amended. For an axis that is none of \<^verbatim>\<open>X_AXIS\<close>, \<^verbatim>\<open>Y_AXIS\<close>, \<^verbatim>\<open>Z_AXIS\<close>,
  \<^verbatim>\<open>st_millimeters_to_steps\<close> returns 0 for any distance, \<^verbatim>\<open>check_limit_switch\<close> returns 0
  and \<^verbatim>\<open>st_bit_for_stepper\<close> returns 0. For each of the three axes (distinct case labels)
  with its steps-per-millimeter constant: the double product is within a relative error
  of \<open>1 / 2 ^ DBL_MANT_DIG\<close> of the exact product; the integer computed from it is a
  nearest integer to it; when that integer is in the range of \<^verbatim>\<open>int32_t\<close> the function
  returns it, and when it is not, the conversion of the return value is undefined.
\<close>

theorem axis_helpers_on_axis:
  "(axis \<noteq> X_AXIS cfg \<and> axis \<noteq> Y_AXIS cfg \<and> axis \<noteq> Z_AXIS cfg \<longrightarrow>
      st_millimeters_to_steps cfg u millimeters axis = Inr 0 \<and>
      check_limit_switch cfg port1 port2 axis = 0 \<and>
      st_bit_for_stepper cfg axis = 0) \<and>
   (distinct [X_AXIS cfg, Y_AXIS cfg, Z_AXIS cfg] \<and>
    (axis, steps_per_mm) \<in> {(X_AXIS cfg, X_STEPS_PER_MM u), (Y_AXIS cfg, Y_STEPS_PER_MM u),
                             (Z_AXIS cfg, Z_STEPS_PER_MM u)} \<longrightarrow>
      (let product = double_mul (DBL_MANT_DIG u) millimeters steps_per_mm;
           n = c_round product
       in \<bar>product - millimeters * steps_per_mm\<bar>
            \<le> \<bar>millimeters * steps_per_mm\<bar> / 2 ^ DBL_MANT_DIG u \<and>
          \<bar>of_int n - product\<bar> \<le> 1 / 2 \<and>
          (- (2 ^ 31) \<le> n \<and> n \<le> 2 ^ 31 - 1 \<longrightarrow>
             st_millimeters_to_steps cfg u millimeters axis = Inr (word_of_int n) \<and>
             sint (word_of_int n :: 32 word) = n) \<and>
          (\<not> (- (2 ^ 31) \<le> n \<and> n \<le> 2 ^ 31 - 1) \<longrightarrow>
             st_millimeters_to_steps cfg u millimeters axis = Inl Undefined_conversion)))"
proof -
  have unknown: "st_millimeters_to_steps cfg u millimeters axis = Inr 0 \<and>
      check_limit_switch cfg port1 port2 axis = 0 \<and> st_bit_for_stepper cfg axis = 0"
    if "axis \<noteq> X_AXIS cfg \<and> axis \<noteq> Y_AXIS cfg \<and> axis \<noteq> Z_AXIS cfg"
    using that
    by (simp add: st_millimeters_to_steps_def check_limit_switch_def limit_mask_def
        st_bit_for_stepper_def)
  have known: "let product = double_mul (DBL_MANT_DIG u) millimeters steps_per_mm;
           n = c_round product
       in \<bar>product - millimeters * steps_per_mm\<bar>
            \<le> \<bar>millimeters * steps_per_mm\<bar> / 2 ^ DBL_MANT_DIG u \<and>
          \<bar>of_int n - product\<bar> \<le> 1 / 2 \<and>
          (- (2 ^ 31) \<le> n \<and> n \<le> 2 ^ 31 - 1 \<longrightarrow>
             st_millimeters_to_steps cfg u millimeters axis = Inr (word_of_int n) \<and>
             sint (word_of_int n :: 32 word) = n) \<and>
          (\<not> (- (2 ^ 31) \<le> n \<and> n \<le> 2 ^ 31 - 1) \<longrightarrow>
             st_millimeters_to_steps cfg u millimeters axis = Inl Undefined_conversion)"
    if d: "distinct [X_AXIS cfg, Y_AXIS cfg, Z_AXIS cfg]"
      and a: "(axis, steps_per_mm) \<in> {(X_AXIS cfg, X_STEPS_PER_MM u),
        (Y_AXIS cfg, Y_STEPS_PER_MM u), (Z_AXIS cfg, Z_STEPS_PER_MM u)}"
  proof -
    define n where "n = c_round (double_mul (DBL_MANT_DIG u) millimeters steps_per_mm)"
    have call: "st_millimeters_to_steps cfg u millimeters axis = double_to_int32 n"
      using d a by (auto simp: st_millimeters_to_steps_def n_def)
    have 1: "\<bar>double_mul (DBL_MANT_DIG u) millimeters steps_per_mm - millimeters * steps_per_mm\<bar>
        \<le> \<bar>millimeters * steps_per_mm\<bar> / 2 ^ DBL_MANT_DIG u"
      unfolding double_mul_def by (rule double_round_error)
    have 2: "\<bar>of_int n - double_mul (DBL_MANT_DIG u) millimeters steps_per_mm\<bar> \<le> 1 / 2"
      unfolding n_def by (rule c_round_nearest)
    have 3: "st_millimeters_to_steps cfg u millimeters axis = Inr (word_of_int n) \<and>
        sint (word_of_int n :: 32 word) = n"
      if "- (2 ^ 31) \<le> n \<and> n \<le> 2 ^ 31 - 1"
      using double_to_int32_in_range [of n] that unfolding call by blast
    have 4: "st_millimeters_to_steps cfg u millimeters axis = Inl Undefined_conversion"
      if "\<not> (- (2 ^ 31) \<le> n \<and> n \<le> 2 ^ 31 - 1)"
      using that unfolding call by (simp add: double_to_int32_def)
    show ?thesis
      unfolding Let_def n_def [symmetric] using 1 2 3 4 by blast
  qed
  show ?thesis
    using unknown known by blast
qed

theorem axis_helpers_on_axis_witness:
  "(7 :: int) \<noteq> X_AXIS cfg16 \<and> 7 \<noteq> Y_AXIS cfg16 \<and> 7 \<noteq> Z_AXIS cfg16 \<and>
   distinct [X_AXIS cfg16, Y_AXIS cfg16, Z_AXIS cfg16] \<and>
   (1, 10) \<in> {(X_AXIS cfg16, X_STEPS_PER_MM units24), (Y_AXIS cfg16, Y_STEPS_PER_MM units24),
               (Z_AXIS cfg16, Z_STEPS_PER_MM units24)} \<and>
   st_millimeters_to_steps cfg16 units24 (1 / 4) 7 = Inr 0 \<and>
   check_limit_switch cfg16 0xff 0xff 7 = 0 \<and>
   st_bit_for_stepper cfg16 7 = 0 \<and>
   c_round (double_mul (DBL_MANT_DIG units24) (1 / 4) 10) = 3 \<and>
   - (2 ^ 31) \<le> (3 :: int) \<and> (3 :: int) \<le> 2 ^ 31 - 1 \<and>
   st_millimeters_to_steps cfg16 units24 (1 / 4) 1 = Inr 3"
proof -
  have n: "c_round (double_mul (DBL_MANT_DIG units24) (1 / 4) 10) = 3"
    by (simp add: units24_def double_mul_def double_round_def binade_def
        round_half_even_def c_round_def Let_def bit_length.simps)
  have a: "(1, 10) \<in> {(X_AXIS cfg16, X_STEPS_PER_MM units24),
      (Y_AXIS cfg16, Y_STEPS_PER_MM units24), (Z_AXIS cfg16, Z_STEPS_PER_MM units24)}"
    by (simp add: cfg16_def units24_def)
  have d: "distinct [X_AXIS cfg16, Y_AXIS cfg16, Z_AXIS cfg16]"
    by (simp add: cfg16_def)
  have x: "(7 :: int) \<noteq> X_AXIS cfg16 \<and> 7 \<noteq> Y_AXIS cfg16 \<and> 7 \<noteq> Z_AXIS cfg16"
    by (simp add: cfg16_def)
  have "st_millimeters_to_steps cfg16 units24 (1 / 4) 7 = Inr 0 \<and>
      check_limit_switch cfg16 0xff 0xff 7 = 0 \<and> st_bit_for_stepper cfg16 7 = 0"
    using axis_helpers_on_axis [of 7 cfg16 units24 "1 / 4" "0xff" "0xff"] x by blast
  moreover have "st_millimeters_to_steps cfg16 units24 (1 / 4) 1 = Inr 3"
    using axis_helpers_on_axis [of 1 cfg16 units24 "1 / 4" "0xff" "0xff" 10] d a
    unfolding Let_def n by simp
  ultimately show ?thesis
    using n a d x by simp
qed

text \<open>
  C9 as stated has a valid axis always return the rounded product. At 4294967296 mm on
  the X axis with 5 steps per millimeter the product is 21474836480 (exact in a double of
  any precision), an integer above the largest \<^verbatim>\<open>int32_t\<close>, so no return value is that
  integer: the conversion is undefined.
\<close>

theorem st_millimeters_to_steps_out_of_range:
  "X_AXIS cfg16 = 0 \<and> X_STEPS_PER_MM units24 = 5 \<and>
   double_mul (DBL_MANT_DIG units24) 4294967296 5 = 4294967296 * 5 \<and>
   c_round (double_mul (DBL_MANT_DIG units24) 4294967296 5) = 21474836480 \<and>
   (2 :: int) ^ 31 - 1 < 21474836480 \<and>
   st_millimeters_to_steps cfg16 units24 4294967296 0 = Inl Undefined_conversion"
  by (simp add: cfg16_def units24_def st_millimeters_to_steps_def double_to_int32_def
      double_mul_def double_round_def binade_def round_half_even_def c_round_def Let_def
      bit_length.simps)

section \<open>The ring buffer\<close>

lemma tick_empty:
  "step_buffer_head g = step_buffer_tail g \<Longrightarrow>
   SIG_OUTPUT_COMPARE1A cfg g = g\<lparr>PORTD := PORTD g OR push_bit 3 1\<rparr>"
  by (simp add: SIG_OUTPUT_COMPARE1A_def)

lemma tick_pop:
  assumes "step_buffer_head g \<noteq> step_buffer_tail g"
  shows "step_buffer (SIG_OUTPUT_COMPARE1A cfg g) = step_buffer g"
    and "step_buffer_head (SIG_OUTPUT_COMPARE1A cfg g) = step_buffer_head g"
    and "step_buffer_tail (SIG_OUTPUT_COMPARE1A cfg g)
           = (step_buffer_tail g + 1) mod STEP_BUFFER_SIZE"
    and "stepper_mode (SIG_OUTPUT_COMPARE1A cfg g) = stepper_mode g"
    and "current_pace (SIG_OUTPUT_COMPARE1A cfg g)
           = (if step_buffer g ! step_buffer_tail g = PACE_CHANGE_MARKER then next_pace g
              else current_pace g)"
    and "next_pace (SIG_OUTPUT_COMPARE1A cfg g)
           = (if step_buffer g ! step_buffer_tail g = PACE_CHANGE_MARKER then 0
              else next_pace g)"
  using assms
  by (simp_all add: SIG_OUTPUT_COMPARE1A_def config_pace_timer_def Let_def split: prod.split)

lemma ring_distinct:
  fixes t :: nat
  assumes "k < n" and "n < N"
  shows "(t + k) mod N \<noteq> (t + n) mod N"
proof
  assume "(t + k) mod N = (t + n) mod N"
  then have "N dvd (t + n) - (t + k)"
    using assms(1) mod_eq_dvd_iff_nat [of "t + k" "t + n" N] by simp
  then have "N dvd n - k"
    by simp
  moreover have "0 < n - k" "n - k < N"
    using assms by simp_all
  ultimately show False
    using nat_dvd_not_less by blast
qed

lemma ring_empty_iff:
  fixes t :: nat
  assumes "t < N" and "n < N"
  shows "(t + n) mod N = t \<longleftrightarrow> n = 0"
proof
  assume "(t + n) mod N = t"
  then have "(t + n) mod N = (t + 0) mod N"
    using assms(1) by simp
  then show "n = 0"
    using ring_distinct [of 0 n N t] assms(2) by (cases "n = 0") auto
next
  assume "n = 0"
  then show "(t + n) mod N = t"
    using assms(1) by simp
qed

lemma ring_full_iff:
  fixes t :: nat
  assumes "t < N" and "n < N"
  shows "((t + n) mod N + 1) mod N = t \<longleftrightarrow> n + 1 = N"
proof -
  have "((t + n) mod N + 1) mod N = (t + (n + 1)) mod N"
    by (simp add: mod_simps)
  moreover have "(t + (n + 1)) mod N = t \<longleftrightarrow> n + 1 = N"
  proof (cases "n + 1 = N")
    case True
    then show ?thesis
      using assms(1) by simp
  next
    case False
    then have "n + 1 < N"
      using assms(2) by simp
    then show ?thesis
      using ring_empty_iff [OF assms(1), of "n + 1"] False by simp
  qed
  ultimately show ?thesis
    by simp
qed

lemma buffered_Suc:
  "buffered g (Suc n)
     = buffered g n @ [step_buffer g ! ((step_buffer_tail g + n) mod STEP_BUFFER_SIZE)]"
  by (simp add: buffered_def)

lemma buffered_pop:
  assumes "step_buffer g' = step_buffer g"
    and "step_buffer_tail g' = (step_buffer_tail g + 1) mod STEP_BUFFER_SIZE"
  shows "buffered g (Suc n) = step_buffer g ! (step_buffer_tail g mod STEP_BUFFER_SIZE) # buffered g' n"
proof -
  have "[0..<Suc n] = 0 # map Suc [0..<n]"
    by (simp add: upt_conv_Cons map_Suc_upt del: upt_Suc)
  then show ?thesis
    using assms by (simp add: buffered_def mod_simps del: upt_Suc)
qed

lemma buffered_write:
  assumes "n < STEP_BUFFER_SIZE"
    and "step_buffer g' = (step_buffer g)[(step_buffer_tail g + n) mod STEP_BUFFER_SIZE := b]"
    and "step_buffer_tail g' = step_buffer_tail g"
  shows "buffered g' n = buffered g n"
proof -
  have "(step_buffer_tail g + n) mod STEP_BUFFER_SIZE
          \<noteq> (step_buffer_tail g + k) mod STEP_BUFFER_SIZE" if "k < n" for k
    using ring_distinct [OF that assms(1), of "step_buffer_tail g"] by simp
  then show ?thesis
    using assms by (simp add: buffered_def)
qed

lemma buffer_inv_Call:
  assumes "buffer_inv s"
  shows "buffer_inv (sys_step cfg (Call c) s)"
proof (cases "pc s = Idle")
  case True
  have "pc_buffer_ok (fg_call c (globals s)) (s\<lparr>pc := fg_call c (globals s)\<rparr>)"
    by (cases c) (simp_all add: st_buffer_step_entry_def st_buffer_pace_entry_def)
  then show ?thesis
    using assms True by (simp add: buffer_inv_def resident_def pending_def)
next
  case False
  then show ?thesis
    using assms by simp
qed

lemma buffer_inv_Pulse_reset:
  assumes "buffer_inv s"
  shows "buffer_inv (sys_step cfg Pulse_reset s)"
proof -
  have "pc_buffer_ok p (s\<lparr>globals := SIG_OVERFLOW2 cfg (globals s)\<rparr>) = pc_buffer_ok p s" for p
    by (cases p) (simp_all add: SIG_OVERFLOW2_def resident_def)
  then show ?thesis
    using assms
    by (simp add: buffer_inv_def resident_def pending_def SIG_OVERFLOW2_def buffered_def)
qed

lemma buffered_cong:
  "step_buffer g' = step_buffer g \<Longrightarrow> step_buffer_tail g' = step_buffer_tail g \<Longrightarrow>
   buffered g' n = buffered g n"
  by (simp add: buffered_def)

lemma buffer_invD:
  assumes "buffer_inv s"
  shows "stepper_mode (globals s) = STEPPER_MODE_RUNNING"
    and "length (step_buffer (globals s)) = STEP_BUFFER_SIZE"
    and "step_buffer_tail (globals s) < STEP_BUFFER_SIZE"
    and "length (deq_log s) \<le> length (enq_log s)"
    and "resident s < STEP_BUFFER_SIZE"
    and "step_buffer_head (globals s)
           = (step_buffer_tail (globals s) + resident s) mod STEP_BUFFER_SIZE"
    and "buffered (globals s) (resident s) = map request_byte (pending s)"
    and "map fst (deq_log s) = map request_byte (take (length (deq_log s)) (enq_log s))"
    and "pc_buffer_ok (pc s) s"
  using assms unfolding buffer_inv_def by blast+

lemma buffer_inv_Fg:
  assumes inv: "buffer_inv s"
  shows "buffer_inv (sys_step cfg Fg s)"
proof (cases "pc s")
  case Idle
  then show ?thesis
    using inv by (simp add: buffer_inv_def resident_def pending_def)
next
  case (Step_wait b n c)
  show ?thesis
  proof (cases "step_buffer_tail (globals s) = n")
    case True
    then have "sys_step cfg Fg s = s"
      using Step_wait by simp
    then show ?thesis
      using inv by simp
  next
    case False
    note tail = buffer_invD(3) [OF inv] and res = buffer_invD(5) [OF inv]
      and head = buffer_invD(6) [OF inv]
    have n: "n = (step_buffer_head (globals s) + 1) mod STEP_BUFFER_SIZE"
      and b: "request_byte (enqueued b c) = b"
      using buffer_invD(9) [OF inv] unfolding Step_wait by simp_all
    have "resident s + 1 \<noteq> STEP_BUFFER_SIZE"
      using False ring_full_iff [OF tail res] unfolding n head by metis
    then have room: "resident s + 1 < STEP_BUFFER_SIZE"
      using res by simp
    have s': "sys_step cfg Fg s = s\<lparr>pc := Step_push b n c\<rparr>"
      using Step_wait False by simp
    have "pc_buffer_ok (Step_push b n c) (s\<lparr>pc := Step_push b n c\<rparr>)"
      using n b room by (simp add: resident_def)
    then show ?thesis
      unfolding s' using inv by (simp add: buffer_inv_def resident_def pending_def)
  qed
next
  case (Step_push b n c)
  let ?g = "globals s"
  let ?g' = "?g\<lparr>step_buffer := (step_buffer ?g)[step_buffer_head ?g := b]\<rparr>"
  note head = buffer_invD(6) [OF inv] and len = buffer_invD(2) [OF inv]
    and res = buffer_invD(5) [OF inv]
  have "buffered ?g' (resident s) = buffered ?g (resident s)"
    by (rule buffered_write [OF res]) (simp_all add: head)
  moreover have "step_buffer ?g' ! step_buffer_head ?g = b"
    using len res by (simp add: head)
  ultimately show ?thesis
    using inv Step_push by (simp add: buffer_inv_def resident_def pending_def)
next
  case (Step_advance b n c)
  let ?g = "globals s"
  let ?s' = "s\<lparr>globals := ?g\<lparr>step_buffer_head := n\<rparr>, pc := Idle,
                 enq_log := enq_log s @ [enqueued b c]\<rparr>"
  have s': "sys_step cfg Fg s = ?s'"
    using Step_advance by simp
  note le = buffer_invD(4) [OF inv] and head = buffer_invD(6) [OF inv]
    and buf = buffer_invD(7) [OF inv]
  have n: "n = (step_buffer_head ?g + 1) mod STEP_BUFFER_SIZE"
    and b: "request_byte (enqueued b c) = b" "step_buffer ?g ! step_buffer_head ?g = b"
    and room: "resident s + 1 < STEP_BUFFER_SIZE"
    using buffer_invD(9) [OF inv] unfolding Step_advance by simp_all
  have res': "resident ?s' = Suc (resident s)"
    using le by (simp add: resident_def)
  have pend': "pending ?s' = pending s @ [enqueued b c]"
    using le by (simp add: pending_def)
  have "buffered (globals ?s') (Suc (resident s)) = buffered ?g (Suc (resident s))"
    by (rule buffered_cong) simp_all
  then have buf': "buffered (globals ?s') (resident ?s') = map request_byte (pending ?s')"
    unfolding res' pend' using buf b by (simp add: buffered_Suc head [symmetric])
  have head': "step_buffer_head (globals ?s')
      = (step_buffer_tail (globals ?s') + resident ?s') mod STEP_BUFFER_SIZE"
    unfolding res' by (simp add: n head mod_simps)
  have "buffer_inv ?s'"
    unfolding buffer_inv_def
    using buffer_invD(1,2,3,8) [OF inv] le room buf' head' res'
    by simp
  then show ?thesis
    unfolding s' .
next
  case (Pace_wait us)
  then show ?thesis
    using inv by (simp add: buffer_inv_def resident_def pending_def)
next
  case (Pace_store us)
  then show ?thesis
    using inv
    by (simp add: buffer_inv_def resident_def pending_def st_buffer_step_entry_def Let_def
        buffered_def)
qed

lemma pc_buffer_ok_mono:
  assumes "pc_buffer_ok p s"
    and "step_buffer_head (globals s') = step_buffer_head (globals s)"
    and "step_buffer (globals s') = step_buffer (globals s)"
    and "resident s' \<le> resident s"
  shows "pc_buffer_ok p s'"
  using assms by (cases p) auto

lemma nonempty_resident:
  assumes inv: "buffer_inv s"
  shows "step_buffer_head (globals s) \<noteq> step_buffer_tail (globals s) \<longleftrightarrow> resident s \<noteq> 0"
  using ring_empty_iff [OF buffer_invD(3) [OF inv] buffer_invD(5) [OF inv]]
  unfolding buffer_invD(6) [OF inv] by simp

lemma pending_pop:
  assumes "resident s \<noteq> 0"
  shows "pending s = enq_log s ! length (deq_log s)
           # drop (Suc (length (deq_log s))) (enq_log s)"
  using assms by (simp add: pending_def resident_def Cons_nth_drop_Suc)

lemma buffer_inv_Tick:
  assumes inv: "buffer_inv s"
  shows "buffer_inv (sys_step cfg Tick s)"
proof (cases "step_buffer_head (globals s) = step_buffer_tail (globals s)")
  case True
  let ?s' = "s\<lparr>globals := (globals s)\<lparr>PORTD := PORTD (globals s) OR push_bit 3 1\<rparr>\<rparr>"
  have s': "sys_step cfg Tick s = ?s'"
    using True by (simp add: tick_empty Let_def)
  have "pc_buffer_ok (pc s) ?s'"
    by (rule pc_buffer_ok_mono [OF buffer_invD(9) [OF inv]]) (simp_all add: resident_def)
  moreover have "buffered (globals ?s') (resident s) = buffered (globals s) (resident s)"
    by (rule buffered_cong) simp_all
  ultimately have "buffer_inv ?s'"
    using inv by (simp add: buffer_inv_def resident_def pending_def)
  then show ?thesis
    unfolding s' .
next
  case False
  let ?g = "globals s"
  let ?g' = "SIG_OUTPUT_COMPARE1A cfg ?g"
  let ?i = "length (deq_log s)"
  let ?s' = "s\<lparr>globals := ?g',
      deq_log := deq_log s @ [(step_buffer ?g ! step_buffer_tail ?g, current_pace ?g)]\<rparr>"
  have s': "sys_step cfg Tick s = ?s'"
    using False by (simp add: Let_def)
  note pop = tick_pop [OF False, of cfg]
  note tail = buffer_invD(3) [OF inv] and le = buffer_invD(4) [OF inv]
    and res = buffer_invD(5) [OF inv] and head = buffer_invD(6) [OF inv]
    and buf = buffer_invD(7) [OF inv] and deq = buffer_invD(8) [OF inv]
  have nz: "resident s \<noteq> 0"
    using False nonempty_resident [OF inv] by simp
  then obtain m where m: "resident s = Suc m"
    by (cases "resident s") auto
  have lt: "?i < length (enq_log s)"
    using nz by (simp add: resident_def)
  have res': "resident ?s' = m"
    using m by (simp add: resident_def)
  have pend': "pending ?s' = drop (Suc ?i) (enq_log s)"
    by (simp add: pending_def)
  have "buffered ?g (Suc m)
      = step_buffer ?g ! (step_buffer_tail ?g mod STEP_BUFFER_SIZE) # buffered ?g' m"
    by (rule buffered_pop) (simp_all add: pop)
  then have "step_buffer ?g ! step_buffer_tail ?g # buffered ?g' m
      = request_byte (enq_log s ! ?i) # map request_byte (drop (Suc ?i) (enq_log s))"
    using buf tail unfolding m [symmetric] pending_pop [OF nz] by simp
  then have popped: "step_buffer ?g ! step_buffer_tail ?g = request_byte (enq_log s ! ?i)"
    and buf': "buffered ?g' m = map request_byte (drop (Suc ?i) (enq_log s))"
    by simp_all
  have head': "step_buffer_head ?g' = (step_buffer_tail ?g' + m) mod STEP_BUFFER_SIZE"
    by (simp add: pop head m mod_simps)
  have deq': "map fst (deq_log ?s')
      = map request_byte (take (length (deq_log ?s')) (enq_log ?s'))"
    using deq popped lt by (simp add: take_Suc_conv_app_nth)
  have pc': "pc_buffer_ok (pc s) ?s'"
    by (rule pc_buffer_ok_mono [OF buffer_invD(9) [OF inv]]) (simp_all add: pop res' m)
  have "buffer_inv ?s'"
    unfolding buffer_inv_def res' pend'
    using buffer_invD(1,2) [OF inv] lt res m buf' head' deq' pc'
    by (simp add: pop)
  then show ?thesis
    unfolding s' .
qed

lemma buffer_inv_step:
  assumes "buffer_inv s"
  shows "buffer_inv (sys_step cfg ev s)"
proof (cases ev)
  case (Call c)
  then show ?thesis using buffer_inv_Call [OF assms] by simp
next
  case Fg
  then show ?thesis using buffer_inv_Fg [OF assms] by simp
next
  case Tick
  then show ?thesis using buffer_inv_Tick [OF assms] by simp
next
  case Pulse_reset
  then show ?thesis using buffer_inv_Pulse_reset [OF assms] by simp
qed

lemma buffer_inv_run:
  assumes "buffer_inv s"
  shows "buffer_inv (run cfg evs s)"
  using assms unfolding run_def
  by (induction evs arbitrary: s) (simp_all add: buffer_inv_step)

lemma started_buffer_inv:
  assumes "started s"
  shows "buffer_inv s"
  using assms by (simp add: started_def buffer_inv_def resident_def pending_def buffered_def)

lemma blocked_step:
  assumes "pc s = Step_wait b n c" and "step_buffer_tail (globals s) = n" and "ev \<noteq> Tick"
  shows "pc (sys_step cfg ev s) = pc s"
    and "step_buffer (globals (sys_step cfg ev s)) = step_buffer (globals s)"
    and "step_buffer_head (globals (sys_step cfg ev s)) = step_buffer_head (globals s)"
    and "step_buffer_tail (globals (sys_step cfg ev s)) = step_buffer_tail (globals s)"
    and "enq_log (sys_step cfg ev s) = enq_log s"
    and "deq_log (sys_step cfg ev s) = deq_log s"
  using assms by (cases ev; simp add: SIG_OVERFLOW2_def)+

lemma blocked_run:
  assumes "pc s = Step_wait b n c" and "step_buffer_tail (globals s) = n"
    and "Tick \<notin> set evs"
  shows "same_queue s (run cfg evs s)"
  using assms
proof (induction evs rule: rev_induct)
  case Nil
  then show ?case by (simp add: run_def same_queue_def)
next
  case (snoc ev evs)
  let ?s = "run cfg evs s"
  have q: "same_queue s ?s"
    using snoc by simp
  have step: "run cfg (evs @ [ev]) s = sys_step cfg ev ?s"
    by (simp add: run_def)
  have "pc ?s = Step_wait b n c" "step_buffer_tail (globals ?s) = n" "ev \<noteq> Tick"
    using q snoc.prems by (auto simp: same_queue_def)
  from blocked_step [OF this] show ?case
    using q unfolding step same_queue_def by simp
qed

lemma next_slot_differs:
  assumes "t < STEP_BUFFER_SIZE"
  shows "(t + 1) mod STEP_BUFFER_SIZE \<noteq> t"
  using ring_full_iff [OF assms, of 0] assms by (simp add: STEP_BUFFER_SIZE_def)

lemma unblocked_run:
  assumes inv: "buffer_inv s" and pc: "pc s = Step_wait b n c"
    and full: "step_buffer_tail (globals s) = n"
  shows "pc (run cfg [Tick, Fg, Fg, Fg] s) = Idle \<and>
     enq_log (run cfg [Tick, Fg, Fg, Fg] s) = enq_log s @ [enqueued b c] \<and>
     deq_log (run cfg [Tick, Fg, Fg, Fg] s)
       = deq_log s @ [(step_buffer (globals s) ! n, current_pace (globals s))]"
proof -
  let ?g = "globals s"
  have n: "n = (step_buffer_head ?g + 1) mod STEP_BUFFER_SIZE"
    using buffer_invD(9) [OF inv] unfolding pc by simp
  have "step_buffer_head ?g < STEP_BUFFER_SIZE"
    unfolding buffer_invD(6) [OF inv] by (simp add: STEP_BUFFER_SIZE_def)
  then have ne: "step_buffer_head ?g \<noteq> step_buffer_tail ?g"
    using next_slot_differs [of "step_buffer_head ?g"] full n by simp
  define s1 where "s1 = sys_step cfg Tick s"
  have s1: "pc s1 = Step_wait b n c" "enq_log s1 = enq_log s"
    "deq_log s1 = deq_log s @ [(step_buffer ?g ! n, current_pace ?g)]"
    "step_buffer_tail (globals s1) = (n + 1) mod STEP_BUFFER_SIZE"
    using ne pc full by (simp_all add: s1_def Let_def tick_pop)
  have "n < STEP_BUFFER_SIZE"
    using buffer_invD(3) [OF inv] full by simp
  then have moved: "step_buffer_tail (globals s1) \<noteq> n"
    using next_slot_differs [of n] s1(4) by simp
  define s2 where "s2 = sys_step cfg Fg s1"
  have s2: "pc s2 = Step_push b n c" "enq_log s2 = enq_log s1" "deq_log s2 = deq_log s1"
    using s1(1) moved by (simp_all add: s2_def)
  define s3 where "s3 = sys_step cfg Fg s2"
  have s3: "pc s3 = Step_advance b n c" "enq_log s3 = enq_log s2" "deq_log s3 = deq_log s2"
    using s2(1) by (simp_all add: s3_def)
  define s4 where "s4 = sys_step cfg Fg s3"
  have s4: "pc s4 = Idle" "enq_log s4 = enq_log s3 @ [enqueued b c]" "deq_log s4 = deq_log s3"
    using s3(1) by (simp_all add: s4_def)
  have "run cfg [Tick, Fg, Fg, Fg] s = s4"
    by (simp add: run_def s4_def s3_def s2_def s1_def)
  then show ?thesis
    using s1 s2 s3 s4 by simp
qed

text \<open>
  C4. From the started system, after any sequence of events (calls with any arguments,
  foreground steps and handler runs in any interleaving): at most
  \<^verbatim>\<open>STEP_BUFFER_SIZE\<close> - 1 instructions are resident, and they are the bytes from the tail
  on, in enqueue order; none is resident iff head equals tail, and
  \<^verbatim>\<open>STEP_BUFFER_SIZE\<close> - 1 are iff the head advanced by one modulo the size equals the
  tail. A \<^verbatim>\<open>st_buffer_step\<close> call issued in that full state stays in its wait loop, with
  buffer, head and enqueue log unchanged, through any events that contain no run of the
  cadence handler; after one run of the handler, three foreground steps complete the
  append.
\<close>

theorem ring_buffer_bound_and_backpressure:
  assumes "started s0"
  shows "let s = run cfg evs s0; g = globals s; N = STEP_BUFFER_SIZE in
     resident s \<le> N - 1 \<and>
     buffered g (resident s) = map request_byte (pending s) \<and>
     (resident s = 0 \<longleftrightarrow> step_buffer_head g = step_buffer_tail g) \<and>
     (resident s = N - 1 \<longleftrightarrow> (step_buffer_head g + 1) mod N = step_buffer_tail g) \<and>
     (pc s = Idle \<and> (step_buffer_head g + 1) mod N = step_buffer_tail g \<longrightarrow>
        (\<forall>b evs'. Tick \<notin> set evs' \<longrightarrow>
           (let s' = run cfg (Call (Call_st_buffer_step b) # evs') s in
              pc s' = Step_wait b (step_buffer_tail g) From_main \<and>
              step_buffer (globals s') = step_buffer g \<and>
              step_buffer_head (globals s') = step_buffer_head g \<and>
              enq_log s' = enq_log s \<and>
              pc (run cfg [Tick, Fg, Fg, Fg] s') = Idle \<and>
              enq_log (run cfg [Tick, Fg, Fg, Fg] s') = enq_log s @ [Req_step b] \<and>
              length (deq_log (run cfg [Tick, Fg, Fg, Fg] s')) = Suc (length (deq_log s)))))"
proof -
  define s where "s = run cfg evs s0"
  let ?g = "globals s"
  have inv: "buffer_inv s"
    unfolding s_def by (rule buffer_inv_run [OF started_buffer_inv [OF assms]])
  note tail = buffer_invD(3) [OF inv] and res = buffer_invD(5) [OF inv]
    and head = buffer_invD(6) [OF inv]
  have bound: "resident s \<le> STEP_BUFFER_SIZE - 1"
    using res by simp
  have empty: "resident s = 0 \<longleftrightarrow> step_buffer_head ?g = step_buffer_tail ?g"
    using nonempty_resident [OF inv] by blast
  have full: "resident s = STEP_BUFFER_SIZE - 1
      \<longleftrightarrow> (step_buffer_head ?g + 1) mod STEP_BUFFER_SIZE = step_buffer_tail ?g"
    using ring_full_iff [OF tail res] res unfolding head by auto
  have blocked: "pc s' = Step_wait b (step_buffer_tail ?g) From_main \<and>
      step_buffer (globals s') = step_buffer ?g \<and>
      step_buffer_head (globals s') = step_buffer_head ?g \<and>
      enq_log s' = enq_log s \<and>
      pc (run cfg [Tick, Fg, Fg, Fg] s') = Idle \<and>
      enq_log (run cfg [Tick, Fg, Fg, Fg] s') = enq_log s @ [Req_step b] \<and>
      length (deq_log (run cfg [Tick, Fg, Fg, Fg] s')) = Suc (length (deq_log s))"
    if idle: "pc s = Idle"
      and f: "(step_buffer_head ?g + 1) mod STEP_BUFFER_SIZE = step_buffer_tail ?g"
      and nt: "Tick \<notin> set evs'"
      and s': "s' = run cfg (Call (Call_st_buffer_step b) # evs') s"
    for b evs' s'
  proof -
    define s1 where "s1 = sys_step cfg (Call (Call_st_buffer_step b)) s"
    have s1: "s1 = s\<lparr>pc := Step_wait b (step_buffer_tail ?g) From_main\<rparr>"
      using idle f buffer_invD(1) [OF inv] by (simp add: s1_def st_buffer_step_entry_def)
    have run: "s' = run cfg evs' s1"
      by (simp add: s' s1_def run_def)
    have pc1: "pc s1 = Step_wait b (step_buffer_tail ?g) From_main"
      and t1: "step_buffer_tail (globals s1) = step_buffer_tail ?g"
      by (simp_all add: s1)
    have q: "same_queue s1 s'"
      unfolding run by (rule blocked_run [OF pc1 t1 nt])
    have inv': "buffer_inv s'"
      unfolding s' by (rule buffer_inv_run [OF inv])
    have pc': "pc s' = Step_wait b (step_buffer_tail ?g) From_main"
      and t': "step_buffer_tail (globals s') = step_buffer_tail ?g"
      using q pc1 t1 by (simp_all add: same_queue_def)
    show ?thesis
      using q unblocked_run [OF inv' pc' t', of cfg]
      by (simp add: same_queue_def s1)
  qed
  show ?thesis
    unfolding Let_def s_def [symmetric]
    using bound buffer_invD(7) [OF inv] empty full blocked by blast
qed

theorem ring_buffer_bound_and_backpressure_witness:
  "started sys0 \<and>
   resident (run cfg16 fill_trace sys0) = STEP_BUFFER_SIZE - 1 \<and>
   pc (run cfg16 fill_trace sys0) = Idle \<and>
   (step_buffer_head (globals (run cfg16 fill_trace sys0)) + 1) mod STEP_BUFFER_SIZE
     = step_buffer_tail (globals (run cfg16 fill_trace sys0)) \<and>
   Tick \<notin> set [Fg, Pulse_reset, Fg] \<and>
   pc (run cfg16 (Call (Call_st_buffer_step 2) # [Fg, Pulse_reset, Fg])
         (run cfg16 fill_trace sys0))
     = Step_wait 2 (step_buffer_tail (globals (run cfg16 fill_trace sys0))) From_main \<and>
   enq_log (run cfg16 (Call (Call_st_buffer_step 2) # [Fg, Pulse_reset, Fg])
         (run cfg16 fill_trace sys0))
     = enq_log (run cfg16 fill_trace sys0) \<and>
   enq_log (run cfg16 [Tick, Fg, Fg, Fg]
        (run cfg16 (Call (Call_st_buffer_step 2) # [Fg, Pulse_reset, Fg])
           (run cfg16 fill_trace sys0)))
     = enq_log (run cfg16 fill_trace sys0) @ [Req_step 2]"
proof -
  define s where "s = run cfg16 fill_trace sys0"
  have st: "started sys0"
    by code_simp
  have res: "resident s = STEP_BUFFER_SIZE - 1"
    unfolding s_def by code_simp
  have idle: "pc s = Idle"
    unfolding s_def by code_simp
  have full: "(step_buffer_head (globals s) + 1) mod STEP_BUFFER_SIZE
      = step_buffer_tail (globals s)"
    unfolding s_def by code_simp
  have nt: "Tick \<notin> set [Fg, Pulse_reset, Fg]"
    by simp
  note T = ring_buffer_bound_and_backpressure [OF st, of cfg16 fill_trace,
      unfolded Let_def, folded s_def]
  from T idle full nt have
    "pc (run cfg16 (Call (Call_st_buffer_step 2) # [Fg, Pulse_reset, Fg]) s)
       = Step_wait 2 (step_buffer_tail (globals s)) From_main \<and>
     enq_log (run cfg16 (Call (Call_st_buffer_step 2) # [Fg, Pulse_reset, Fg]) s)
       = enq_log s \<and>
     enq_log (run cfg16 [Tick, Fg, Fg, Fg]
          (run cfg16 (Call (Call_st_buffer_step 2) # [Fg, Pulse_reset, Fg]) s))
       = enq_log s @ [Req_step 2]"
    by blast
  with st res idle full nt show ?thesis
    unfolding s_def by blast
qed


section \<open>The pace protocol\<close>

lemma replay_snoc:
  "replay p (rs @ [r]) = replay p rs @ [(request_byte r, pace_after p rs)]"
  by (induction p rs rule: replay.induct) (cases r; simp)+

lemma pace_after_snoc_step: "pace_after p (rs @ [Req_step b]) = pace_after p rs"
  by (induction p rs rule: pace_after.induct) simp_all

lemma pace_after_snoc_pace: "pace_after p (rs @ [Req_pace us]) = us"
  by (induction p rs rule: pace_after.induct) simp_all

lemma pending_paces_append:
  "pending_paces (rs @ rs') = pending_paces rs @ pending_paces rs'"
  by (induction rs rule: pending_paces.induct) simp_all

lemma pace_invD:
  assumes "pace_inv p0 s"
  shows "deq_log s = replay p0 (take (length (deq_log s)) (enq_log s))"
    and "current_pace (globals s) = pace_after p0 (take (length (deq_log s)) (enq_log s))"
    and "list_all legal_request (enq_log s)"
    and "pc_pace_ok (pc s) s"
  using assms unfolding pace_inv_def by blast+

lemma slot_ok_cong:
  assumes "pending_paces (pending s') = pending_paces (pending s)"
    and "next_pace (globals s') = next_pace (globals s)"
  shows "slot_ok s' = slot_ok s"
  using assms by (simp add: slot_ok_def)

lemma step_ctx_ok_cong:
  assumes "pending_paces (pending s') = pending_paces (pending s)"
    and "next_pace (globals s') = next_pace (globals s)"
  shows "step_ctx_ok b c s' = step_ctx_ok b c s"
  using assms by (cases c) (simp_all add: slot_ok_def)

lemma pc_pace_ok_cong:
  assumes "pending_paces (pending s') = pending_paces (pending s)"
    and "next_pace (globals s') = next_pace (globals s)"
  shows "pc_pace_ok p s' = pc_pace_ok p s"
  using assms step_ctx_ok_cong [OF assms] by (cases p) (simp_all add: slot_ok_def)

lemma pc_pace_ok_marker_popped:
  assumes "pc_pace_ok p s" and "pending_paces (pending s) \<noteq> []"
  shows "pending_paces (pending s) = [next_pace (globals s)]"
    and "pending_paces (pending s') = [] \<Longrightarrow> next_pace (globals s') = 0 \<Longrightarrow> pc_pace_ok p s'"
proof -
  have ctx: "pending_paces (pending s) = [next_pace (globals s)] \<and>
      (pending_paces (pending s') = [] \<longrightarrow> next_pace (globals s') = 0 \<longrightarrow> step_ctx_ok b c s')"
    if "step_ctx_ok b c s" for b c
    using that assms(2) by (cases c) (auto simp: slot_ok_def split: if_splits)
  show "pending_paces (pending s) = [next_pace (globals s)]"
    using assms ctx by (cases p) (auto simp: slot_ok_def split: if_splits)
  show "pending_paces (pending s') = [] \<Longrightarrow> next_pace (globals s') = 0 \<Longrightarrow> pc_pace_ok p s'"
    using assms ctx by (cases p) (auto simp: slot_ok_def split: if_splits)
qed

lemma pace_inv_Call:
  assumes inv: "pace_inv p0 s" and legal: "legal_event (Call c)"
  shows "pace_inv p0 (sys_step cfg (Call c) s)"
proof (cases "pc s = Idle")
  case True
  let ?s' = "s\<lparr>pc := fg_call c (globals s)\<rparr>"
  have "slot_ok s"
    using pace_invD(4) [OF inv] True by simp
  moreover have "slot_ok (s\<lparr>pc := p\<rparr>) = slot_ok s" for p
    by (rule slot_ok_cong) (simp_all add: pending_def)
  ultimately have "slot_ok (s\<lparr>pc := p\<rparr>)" for p
    by simp
  then have "pc_pace_ok (fg_call c (globals s)) ?s'"
    using legal
    by (cases c) (simp_all add: st_buffer_step_entry_def st_buffer_pace_entry_def)
  then show ?thesis
    using inv True by (simp add: pace_inv_def)
next
  case False
  then show ?thesis
    using inv by simp
qed

lemma pace_inv_Pulse_reset:
  assumes inv: "pace_inv p0 s"
  shows "pace_inv p0 (sys_step cfg Pulse_reset s)"
proof -
  let ?s' = "s\<lparr>globals := SIG_OVERFLOW2 cfg (globals s)\<rparr>"
  have "pc_pace_ok (pc s) ?s' = pc_pace_ok (pc s) s"
    by (rule pc_pace_ok_cong) (simp_all add: pending_def SIG_OVERFLOW2_def)
  then show ?thesis
    using inv by (simp add: pace_inv_def SIG_OVERFLOW2_def)
qed

lemma pace_inv_Fg:
  assumes binv: "buffer_inv s" and inv: "pace_inv p0 s"
  shows "pace_inv p0 (sys_step cfg Fg s)"
proof (cases "pc s")
  case Idle
  then have "sys_step cfg Fg s = s"
    by simp
  then show ?thesis
    using inv by simp
next
  case (Step_wait b n c)
  let ?s' = "s\<lparr>pc := Step_push b n c\<rparr>"
  have "sys_step cfg Fg s = s \<or> sys_step cfg Fg s = ?s'"
    using Step_wait by simp
  moreover have "step_ctx_ok b c ?s' = step_ctx_ok b c s"
    by (rule step_ctx_ok_cong) (simp_all add: pending_def)
  then have "pace_inv p0 ?s'"
    using inv Step_wait by (simp add: pace_inv_def)
  ultimately show ?thesis
    using inv by auto
next
  case (Step_push b n c)
  let ?s' = "s\<lparr>globals := (globals s)
      \<lparr>step_buffer := (step_buffer (globals s))[step_buffer_head (globals s) := b]\<rparr>,
      pc := Step_advance b n c\<rparr>"
  have s': "sys_step cfg Fg s = ?s'"
    using Step_push by simp
  have "step_ctx_ok b c ?s' = step_ctx_ok b c s"
    by (rule step_ctx_ok_cong) (simp_all add: pending_def)
  then have "pace_inv p0 ?s'"
    using inv Step_push by (simp add: pace_inv_def)
  then show ?thesis
    unfolding s' .
next
  case (Step_advance b n c)
  let ?r = "enqueued b c"
  let ?s' = "s\<lparr>globals := (globals s)\<lparr>step_buffer_head := n\<rparr>, pc := Idle,
                 enq_log := enq_log s @ [?r]\<rparr>"
  have s': "sys_step cfg Fg s = ?s'"
    using Step_advance by simp
  note le = buffer_invD(4) [OF binv]
  have ctx: "step_ctx_ok b c s"
    using pace_invD(4) [OF inv] unfolding Step_advance by simp
  have pend': "pending ?s' = pending s @ [?r]"
    using le by (simp add: pending_def)
  have legal: "legal_request ?r"
    using ctx by (cases c) simp_all
  have slot: "slot_ok ?s'"
    using ctx unfolding slot_ok_def pend' pending_paces_append
    by (cases c) (simp_all add: slot_ok_def)
  have "pace_inv p0 ?s'"
    unfolding pace_inv_def
    using pace_invD(1,2,3) [OF inv] le legal slot by simp
  then show ?thesis
    unfolding s' .
next
  case (Pace_wait us)
  let ?s' = "s\<lparr>pc := Pace_store us\<rparr>"
  have ok: "us \<noteq> 0" "slot_ok s"
    using pace_invD(4) [OF inv] unfolding Pace_wait by simp_all
  show ?thesis
  proof (cases "next_pace (globals s) = 0")
    case True
    then have s': "sys_step cfg Fg s = ?s'"
      using Pace_wait by simp
    have "pending_paces (pending s) = []"
      using ok(2) True by (simp add: slot_ok_def)
    then have "pc_pace_ok (Pace_store us) ?s'"
      using ok(1) True by (simp add: pending_def)
    then have "pace_inv p0 ?s'"
      using inv by (simp add: pace_inv_def)
    then show ?thesis
      unfolding s' .
  next
    case False
    then have "sys_step cfg Fg s = s"
      using Pace_wait by simp
    then show ?thesis
      using inv by simp
  qed
next
  case (Pace_store us)
  let ?n = "(step_buffer_head (globals s) + 1) mod STEP_BUFFER_SIZE"
  let ?s' = "s\<lparr>globals := (globals s)\<lparr>next_pace := us\<rparr>,
                 pc := Step_wait PACE_CHANGE_MARKER ?n (From_st_buffer_pace us)\<rparr>"
  have s': "sys_step cfg Fg s = ?s'"
    using Pace_store buffer_invD(1) [OF binv] by (simp add: st_buffer_step_entry_def Let_def)
  have "us \<noteq> 0" "pending_paces (pending s) = []"
    using pace_invD(4) [OF inv] unfolding Pace_store by simp_all
  then have "pc_pace_ok (pc ?s') ?s'"
    by (simp add: pending_def)
  then have "pace_inv p0 ?s'"
    using pace_invD(1,2,3) [OF inv] unfolding pace_inv_def by simp
  then show ?thesis
    unfolding s' .
qed

lemma pace_inv_Tick:
  assumes binv: "buffer_inv s" and inv: "pace_inv p0 s"
  shows "pace_inv p0 (sys_step cfg Tick s)"
proof (cases "step_buffer_head (globals s) = step_buffer_tail (globals s)")
  case True
  let ?s' = "s\<lparr>globals := (globals s)\<lparr>PORTD := PORTD (globals s) OR push_bit 3 1\<rparr>\<rparr>"
  have s': "sys_step cfg Tick s = ?s'"
    using True by (simp add: tick_empty Let_def)
  have "pc_pace_ok (pc s) ?s' = pc_pace_ok (pc s) s"
    by (rule pc_pace_ok_cong) (simp_all add: pending_def)
  then have "pace_inv p0 ?s'"
    using inv by (simp add: pace_inv_def)
  then show ?thesis
    unfolding s' .
next
  case False
  let ?g = "globals s"
  let ?g' = "SIG_OUTPUT_COMPARE1A cfg ?g"
  let ?i = "length (deq_log s)"
  let ?r = "enq_log s ! ?i"
  let ?s' = "s\<lparr>globals := ?g',
      deq_log := deq_log s @ [(step_buffer ?g ! step_buffer_tail ?g, current_pace ?g)]\<rparr>"
  have s': "sys_step cfg Tick s = ?s'"
    using False by (simp add: Let_def)
  note pop = tick_pop [OF False, of cfg]
  have nz: "resident s \<noteq> 0"
    using False nonempty_resident [OF binv] by simp
  then have lt: "?i < length (enq_log s)"
    by (simp add: resident_def)
  note pend = pending_pop [OF nz]
  have pend': "pending ?s' = drop (Suc ?i) (enq_log s)"
    by (simp add: pending_def)
  have "buffered ?g (resident s) \<noteq> []"
    using nz by (simp add: buffered_def)
  moreover have "hd (buffered ?g (resident s)) = step_buffer ?g ! step_buffer_tail ?g"
    using nz buffer_invD(3) [OF binv] by (simp add: buffered_def hd_map upt_conv_Cons)
  ultimately have popped: "step_buffer ?g ! step_buffer_tail ?g = request_byte ?r"
    unfolding buffer_invD(7) [OF binv] pend by simp
  have take: "take (Suc ?i) (enq_log s) = take ?i (enq_log s) @ [?r]"
    using lt by (rule take_Suc_conv_app_nth)
  have deq': "deq_log ?s' = replay p0 (take (length (deq_log ?s')) (enq_log ?s'))"
    using pace_invD(1,2) [OF inv] by (simp add: take replay_snoc popped)
  have legal: "legal_request ?r"
    using pace_invD(3) [OF inv] lt by (simp add: list_all_length)
  have rest: "current_pace ?g' = pace_after p0 (take (Suc ?i) (enq_log s)) \<and> pc_pace_ok (pc s) ?s'"
  proof (cases ?r)
    case (Req_step b)
    then have nm: "step_buffer ?g ! step_buffer_tail ?g \<noteq> PACE_CHANGE_MARKER"
      using legal popped by simp
    have "pending_paces (pending ?s') = pending_paces (pending s)"
      unfolding pend pend' using Req_step by simp
    moreover have "next_pace (globals ?s') = next_pace ?g"
      using nm by (simp add: pop)
    ultimately have "pc_pace_ok (pc s) ?s' = pc_pace_ok (pc s) s"
      by (rule pc_pace_ok_cong)
    then have "pc_pace_ok (pc s) ?s'"
      using pace_invD(4) [OF inv] by simp
    then show ?thesis
      using pace_invD(2) [OF inv] nm by (simp add: pop take Req_step pace_after_snoc_step)
  next
    case (Req_pace us)
    then have m: "step_buffer ?g ! step_buffer_tail ?g = PACE_CHANGE_MARKER"
      using popped by simp
    have pp: "pending_paces (pending s) = us # pending_paces (pending ?s')"
      unfolding pend pend' using Req_pace by simp
    then have ne: "pending_paces (pending s) \<noteq> []"
      by simp
    have "pending_paces (pending s) = [next_pace ?g]"
      by (rule pc_pace_ok_marker_popped(1) [OF pace_invD(4) [OF inv] ne])
    then have us: "us = next_pace ?g" and none: "pending_paces (pending ?s') = []"
      using pp by simp_all
    have "next_pace (globals ?s') = 0"
      using m by (simp add: pop)
    then have "pc_pace_ok (pc s) ?s'"
      by (rule pc_pace_ok_marker_popped(2) [OF pace_invD(4) [OF inv] ne none])
    then show ?thesis
      using m us by (simp add: pop take Req_pace pace_after_snoc_pace)
  qed
  have cur': "current_pace (globals ?s')
      = pace_after p0 (take (length (deq_log ?s')) (enq_log ?s'))"
    using rest by simp
  have legal': "list_all legal_request (enq_log ?s')"
    using pace_invD(3) [OF inv] by simp
  have pc': "pc_pace_ok (pc ?s') ?s'"
    using rest by simp
  have "pace_inv p0 ?s'"
    unfolding pace_inv_def using deq' cur' legal' pc' by blast
  then show ?thesis
    unfolding s' .
qed

lemma pace_inv_step:
  assumes "buffer_inv s" and "pace_inv p0 s" and "legal_event ev"
  shows "pace_inv p0 (sys_step cfg ev s)"
proof (cases ev)
  case (Call c)
  then show ?thesis using pace_inv_Call [OF assms(2)] assms(3) by simp
next
  case Fg
  then show ?thesis using pace_inv_Fg [OF assms(1,2)] by simp
next
  case Tick
  then show ?thesis using pace_inv_Tick [OF assms(1,2)] by simp
next
  case Pulse_reset
  then show ?thesis using pace_inv_Pulse_reset [OF assms(2)] by simp
qed

lemma pace_inv_run:
  assumes "buffer_inv s" and "pace_inv p0 s" and "list_all legal_event evs"
  shows "pace_inv p0 (run cfg evs s)"
  using assms unfolding run_def
  by (induction evs arbitrary: s) (simp_all add: buffer_inv_step pace_inv_step)

lemma started_pace_inv:
  assumes "started s"
  shows "pace_inv (current_pace (globals s)) s"
  using assms by (simp add: started_def pace_inv_def slot_ok_def pending_def)



lemma timer_matches_config:
  "timer_matches cfg (config_pace_timer cfg us g)"
  by (simp add: timer_matches_def config_pace_timer_def clock_select_def CS10_def Let_def
      clock_select_field split: prod.split)

lemma timer_matches_cong:
  assumes "TCCR1B g' = TCCR1B g" and "OCR1A g' = OCR1A g" and "current_pace g' = current_pace g"
  shows "timer_matches cfg g' = timer_matches cfg g"
  using assms
  by (simp add: timer_matches_def config_pace_timer_def clock_select_def Let_def
      split: prod.split)

lemma timer_matches_Tick:
  assumes "timer_matches cfg g"
  shows "timer_matches cfg (SIG_OUTPUT_COMPARE1A cfg g)"
proof (cases "step_buffer_head g \<noteq> step_buffer_tail g
    \<and> step_buffer g ! step_buffer_tail g = PACE_CHANGE_MARKER")
  case True
  let ?g1 = "g\<lparr>PORTD := PORTD g AND NOT (push_bit 3 1)\<rparr>"
  let ?g2 = "config_pace_timer cfg (next_pace ?g1) ?g1"
  have "SIG_OUTPUT_COMPARE1A cfg g
      = ?g2\<lparr>next_pace := 0,
             step_buffer_tail := (step_buffer_tail ?g2 + 1) mod STEP_BUFFER_SIZE\<rparr>"
    using True by (simp add: SIG_OUTPUT_COMPARE1A_def Let_def)
  moreover have "timer_matches cfg
      (?g2\<lparr>next_pace := 0, step_buffer_tail := (step_buffer_tail ?g2 + 1) mod STEP_BUFFER_SIZE\<rparr>)
      = timer_matches cfg ?g2"
    by (rule timer_matches_cong) simp_all
  ultimately show ?thesis
    using timer_matches_config [of cfg "next_pace ?g1" ?g1] by simp
next
  case False
  have "timer_matches cfg (SIG_OUTPUT_COMPARE1A cfg g) = timer_matches cfg g"
    by (rule timer_matches_cong) (use False in \<open>auto simp: SIG_OUTPUT_COMPARE1A_def Let_def\<close>)
  then show ?thesis
    using assms by simp
qed

lemma timer_matches_step:
  assumes "timer_matches cfg (globals s)"
  shows "timer_matches cfg (globals (sys_step cfg ev s))"
proof (cases ev)
  case (Call c)
  then show ?thesis using assms by simp
next
  case Fg
  have "timer_matches cfg (fst (fg_step p g)) = timer_matches cfg g" for p g
    by (rule timer_matches_cong; cases p; simp add: Let_def)
  then show ?thesis
    using assms Fg by (simp add: split_beta)
next
  case Tick
  then show ?thesis using timer_matches_Tick [OF assms] by (simp add: Let_def)
next
  case Pulse_reset
  have "timer_matches cfg (SIG_OVERFLOW2 cfg (globals s)) = timer_matches cfg (globals s)"
    by (rule timer_matches_cong) (simp_all add: SIG_OVERFLOW2_def)
  then show ?thesis using assms Pulse_reset by simp
qed

lemma timer_matches_run:
  assumes "timer_matches cfg (globals s)"
  shows "timer_matches cfg (globals (run cfg evs s))"
  using assms unfolding run_def
  by (induction evs arbitrary: s) (simp_all add: timer_matches_step)

text \<open>
  C1, as amended. From the started system, after any sequence of events: the bytes the
  cadence handler has popped are, in order, the first bytes enqueued, and the rest are
  resident in enqueue order (FIFO). When no \<^verbatim>\<open>st_buffer_step\<close> argument is the marker and
  no \<^verbatim>\<open>st_buffer_pace\<close> argument is 0, every popped instruction was popped under the pace
  the enqueued stream gives it (the start pace up to the first marker, then each marker's
  pace up to the next), \<^verbatim>\<open>current_pace\<close> is the pace of the last popped marker, and the
  timer stays configured for \<^verbatim>\<open>current_pace\<close>.
\<close>

theorem fifo_and_pace_order:
  assumes "started s0"
  shows "let s = run cfg evs s0;
             p0 = current_pace (globals s0);
             popped = take (length (deq_log s)) (enq_log s)
         in length (deq_log s) \<le> length (enq_log s) \<and>
            map fst (deq_log s) = map request_byte popped \<and>
            buffered (globals s) (resident s) = map request_byte (pending s) \<and>
            (list_all legal_event evs \<longrightarrow>
               deq_log s = replay p0 popped \<and>
               current_pace (globals s) = pace_after p0 popped \<and>
               (timer_matches cfg (globals s0) \<longrightarrow> timer_matches cfg (globals s)))"
proof -
  let ?s = "run cfg evs s0"
  note b0 = started_buffer_inv [OF assms]
  have b: "buffer_inv ?s"
    by (rule buffer_inv_run [OF b0])
  have p: "pace_inv (current_pace (globals s0)) ?s" if "list_all legal_event evs"
    by (rule pace_inv_run [OF b0 started_pace_inv [OF assms] that])
  show ?thesis
    unfolding Let_def
    using buffer_invD(4,7,8) [OF b] pace_invD(1,2) [OF p] timer_matches_run [of cfg s0 evs]
    by blast
qed

theorem fifo_and_pace_order_witness:
  "started sys0 \<and> list_all legal_event legal_trace \<and> timer_matches cfg16 (globals sys0) \<and>
   deq_log (run cfg16 legal_trace sys0)
     = replay (current_pace (globals sys0))
         (take (length (deq_log (run cfg16 legal_trace sys0)))
            (enq_log (run cfg16 legal_trace sys0))) \<and>
   timer_matches cfg16 (globals (run cfg16 legal_trace sys0)) \<and>
   enq_log (run cfg16 legal_trace sys0) = [Req_pace 5000, Req_step 1, Req_pace 3000] \<and>
   deq_log (run cfg16 legal_trace sys0) = [(0xff, 20000), (1, 5000), (0xff, 5000)] \<and>
   current_pace (globals (run cfg16 legal_trace sys0)) = 3000 \<and>
   OCR1A (globals (run cfg16 legal_trace sys0)) = 48000"
proof -
  have st: "started sys0"
    by code_simp
  have lg: "list_all legal_event legal_trace"
    by code_simp
  have tm: "timer_matches cfg16 (globals sys0)"
    by code_simp
  have ev: "enq_log (run cfg16 legal_trace sys0) = [Req_pace 5000, Req_step 1, Req_pace 3000]"
    "deq_log (run cfg16 legal_trace sys0) = [(0xff, 20000), (1, 5000), (0xff, 5000)]"
    "current_pace (globals (run cfg16 legal_trace sys0)) = 3000"
    "OCR1A (globals (run cfg16 legal_trace sys0)) = 48000"
    by code_simp+
  have "deq_log (run cfg16 legal_trace sys0)
     = replay (current_pace (globals sys0))
         (take (length (deq_log (run cfg16 legal_trace sys0)))
            (enq_log (run cfg16 legal_trace sys0))) \<and>
     timer_matches cfg16 (globals (run cfg16 legal_trace sys0))"
    using fifo_and_pace_order [OF st, of cfg16 legal_trace] lg tm unfolding Let_def by blast
  with st lg tm ev show ?thesis
    by blast
qed

text \<open>
  C1 as stated covers every sequence of calls. After \<^verbatim>\<open>st_buffer_pace(0)\<close>,
  \<^verbatim>\<open>st_buffer_step(1)\<close>, \<^verbatim>\<open>st_buffer_pace(5000)\<close> the handler pops the first marker and
  puts 5000 in force, so the step, enqueued before the marker of 5000, is popped under
  5000 and not under 0. After \<^verbatim>\<open>st_buffer_step(0xff)\<close>, \<^verbatim>\<open>st_buffer_step(1)\<close> the handler
  takes the first byte for a marker and the step is popped under pace 0, with no pace
  request made.
\<close>

theorem pace_order_broken_by_reserved_values:
  "started sys0 \<and>
   enq_log (run cfg16 (zero_pace_trace @ [Tick, Tick]) sys0)
     = [Req_pace 0, Req_step 1, Req_pace 5000] \<and>
   deq_log (run cfg16 (zero_pace_trace @ [Tick, Tick]) sys0) = [(0xff, 20000), (1, 5000)] \<and>
   replay (current_pace (globals sys0))
       (take (length (deq_log (run cfg16 (zero_pace_trace @ [Tick, Tick]) sys0)))
          (enq_log (run cfg16 (zero_pace_trace @ [Tick, Tick]) sys0)))
     = [(0xff, 20000), (1, 0)] \<and>
   deq_log (run cfg16 (zero_pace_trace @ [Tick, Tick]) sys0)
     \<noteq> replay (current_pace (globals sys0))
         (take (length (deq_log (run cfg16 (zero_pace_trace @ [Tick, Tick]) sys0)))
            (enq_log (run cfg16 (zero_pace_trace @ [Tick, Tick]) sys0))) \<and>
   enq_log (run cfg16 marker_step_trace sys0) = [Req_step 0xff, Req_step 1] \<and>
   deq_log (run cfg16 marker_step_trace sys0) = [(0xff, 20000), (1, 0)] \<and>
   replay (current_pace (globals sys0))
       (take (length (deq_log (run cfg16 marker_step_trace sys0)))
          (enq_log (run cfg16 marker_step_trace sys0)))
     = [(0xff, 20000), (1, 20000)]"
  by code_simp






lemma run_append: "run cfg (evs @ evs') s = run cfg evs' (run cfg evs s)"
  by (simp add: run_def)










end
